theory Spec2Isabelle
  imports Main "HOL-Library.Word" "HOL-Library.Monad_Syntax"
begin

unbundle bit_operations_syntax

section \<open>Data model of \<^verbatim>\<open>cache_manager.c\<close>\<close>

text \<open>
  Pointers to \<^verbatim>\<open>node\<close> are addresses; \<^verbatim>\<open>NULL\<close> is \<open>None\<close>. The nodes live in
  an explicit store, a partial map from addresses to node records: an address outside
  its domain is not allocated (never allocated, or freed). \<^verbatim>\<open>size_t\<close> and
  \<^verbatim>\<open>unsigned long\<close> are 64-bit words (LP64), so that \<open>+\<close> and \<open>*\<close> wrap as in C.
  A C string is modelled by its bytes before the terminating NUL. A \<^verbatim>\<open>char *\<close> field
  of a node is two fields here: the string it points to (\<open>key\<close>, \<open>value_n\<close>) and the
  address of the block that \<^verbatim>\<open>strdup\<close> returned for it (\<open>key_p\<close>, \<open>value_p\<close>); no
  string is written after it was copied, so the string read through the pointer is the
  one that was copied. The blocks that \<^verbatim>\<open>strdup\<close> returned to the cache and that were not
  passed to \<^verbatim>\<open>free\<close> since are the set \<open>strings\<close>, kept beside the store of the nodes.
  The fields \<^verbatim>\<open>value\<close>, \<^verbatim>\<open>next\<close> of \<^verbatim>\<open>node\<close> and \<^verbatim>\<open>size\<close> of \<^verbatim>\<open>cache_t\<close>
  carry a suffix, since their names are taken in Isabelle. The model is of calls of
  \<^verbatim>\<open>cache_create\<close>, \<^verbatim>\<open>cache_put\<close>, \<^verbatim>\<open>cache_get\<close> and \<^verbatim>\<open>cache_delete\<close> one
  after the other, and of a \<^verbatim>\<open>cache_get\<close> with calls of other threads between its two
  critical sections; \<^verbatim>\<open>cache_destroy\<close> and the multithreaded demo are not part of it.
\<close>

type_synonym addr = nat
type_synonym size_t = "64 word"
type_synonym ulong = "64 word"

record node =
  key :: string
  value_n :: string
  prev :: "addr option"
  next_n :: "addr option"
  hnext :: "addr option"
  key_p :: addr
  value_p :: addr

text \<open>
  The field \<^verbatim>\<open>lock\<close> is the \<^verbatim>\<open>pthread_rwlock_t\<close>. Seen from one thread, what
  the code does with it is the sequence of calls it makes on it, oldest first.
\<close>

datatype lock_event = Init | RdLock | WrLock | Unlock

record cache_t =
  capacity :: size_t
  size_c :: size_t
  hsize :: size_t
  htable :: "addr option list"
  head :: "addr option"
  tail :: "addr option"
  lock :: "lock_event list"
  heap :: "addr \<rightharpoonup> node"
  strings :: "addr set"

section \<open>The functions of the source\<close>

text \<open>
  A result \<open>None\<close> of a function into \<open>option\<close> below stands for undefined behaviour
  of the C code (a dereference of an address that is not allocated, an index outside
  the bucket array, a division by zero) or for a loop that does not end; the only
  exception is \<open>cache_create\<close>, where \<open>None\<close> is the \<^verbatim>\<open>NULL\<close> it returns.
\<close>

subsection \<open>djb2 string hash\<close>

fun hash_loop :: "ulong \<Rightarrow> string \<Rightarrow> ulong" where
  "hash_loop hash [] = hash"
| "hash_loop hash (c # str) = hash_loop ((push_bit 5 hash + hash) + of_nat (of_char c)) str"

definition hash_str :: "string \<Rightarrow> ulong" where
  "hash_str str = hash_loop 5381 str"

subsection \<open>Reading and writing fields through a pointer\<close>

text \<open>
  \<^verbatim>\<open>cur->value = nv\<close>, where \<open>p\<close> is the address of the block \<^verbatim>\<open>nv\<close> and \<open>v\<close> the
  string in it.
\<close>

definition set_value :: "cache_t \<Rightarrow> addr \<Rightarrow> addr \<Rightarrow> string \<Rightarrow> cache_t option" where
  "set_value c a p v =
     (case heap c a of None \<Rightarrow> None
      | Some nd \<Rightarrow> Some (c\<lparr>heap := (heap c)(a \<mapsto> nd\<lparr>value_n := v, value_p := p\<rparr>)\<rparr>))"

definition set_prev :: "cache_t \<Rightarrow> addr \<Rightarrow> addr option \<Rightarrow> cache_t option" where
  "set_prev c a p =
     (case heap c a of None \<Rightarrow> None
      | Some nd \<Rightarrow> Some (c\<lparr>heap := (heap c)(a \<mapsto> nd\<lparr>prev := p\<rparr>)\<rparr>))"

definition set_next :: "cache_t \<Rightarrow> addr \<Rightarrow> addr option \<Rightarrow> cache_t option" where
  "set_next c a p =
     (case heap c a of None \<Rightarrow> None
      | Some nd \<Rightarrow> Some (c\<lparr>heap := (heap c)(a \<mapsto> nd\<lparr>next_n := p\<rparr>)\<rparr>))"

definition set_hnext :: "cache_t \<Rightarrow> addr \<Rightarrow> addr option \<Rightarrow> cache_t option" where
  "set_hnext c a p =
     (case heap c a of None \<Rightarrow> None
      | Some nd \<Rightarrow> Some (c\<lparr>heap := (heap c)(a \<mapsto> nd\<lparr>hnext := p\<rparr>)\<rparr>))"

text \<open>\<^verbatim>\<open>hash_str(key) % c->hsize\<close>, and the bucket array at an index.\<close>

definition bucket_index :: "cache_t \<Rightarrow> string \<Rightarrow> nat option" where
  "bucket_index c k =
     (if hsize c = 0 then None else Some (unat (hash_str k mod hsize c)))"

definition htable_load :: "cache_t \<Rightarrow> nat \<Rightarrow> addr option option" where
  "htable_load c hv = (if hv < length (htable c) then Some (htable c ! hv) else None)"

definition htable_store :: "cache_t \<Rightarrow> nat \<Rightarrow> addr option \<Rightarrow> cache_t option" where
  "htable_store c hv p =
     (if hv < length (htable c) then Some (c\<lparr>htable := (htable c)[hv := p]\<rparr>) else None)"

subsection \<open>Allocation\<close>

text \<open>
  What the allocator answers is an input of the model. For \<open>cache_put\<close>:
  whether \<^verbatim>\<open>strdup(value)\<close> on the update path succeeds, the address that
  \<^verbatim>\<open>calloc\<close> returns for a new node (\<open>None\<close> for \<^verbatim>\<open>NULL\<close>), and whether the two
  \<^verbatim>\<open>strdup\<close> calls of \<open>node_create\<close> succeed; then, for each of the three
  \<^verbatim>\<open>strdup\<close> calls, the address of the block it returns when it succeeds.
\<close>

record put_alloc =
  strdup_nv :: bool
  calloc_node :: "addr option"
  strdup_key :: bool
  strdup_value :: bool
  nv_block :: addr
  key_block :: addr
  value_block :: addr

text \<open>
  A successful \<^verbatim>\<open>strdup\<close> that returns the block at \<open>p\<close>, and \<^verbatim>\<open>free(p)\<close> of a
  string. The model does not stop at a \<^verbatim>\<open>free\<close> of a block that is not allocated: that
  a block is allocated when it is freed follows from \<open>storage_inv\<close> below, which holds
  from \<open>cache_create\<close> on.
\<close>

definition strdup_at :: "cache_t \<Rightarrow> addr \<Rightarrow> cache_t" where
  "strdup_at c p = c\<lparr>strings := insert p (strings c)\<rparr>"

definition free_str :: "cache_t \<Rightarrow> addr \<Rightarrow> cache_t" where
  "free_str c p = c\<lparr>strings := strings c - {p}\<rparr>"

text \<open>
  \<^verbatim>\<open>calloc\<close> never returns the address of a live object. When \<open>node_create\<close>
  cannot copy the key or the value it frees what it allocated and returns \<^verbatim>\<open>NULL\<close>:
  nothing is allocated then that was not before.
\<close>

definition alloc_fresh :: "put_alloc \<Rightarrow> cache_t \<Rightarrow> bool" where
  "alloc_fresh m c = (case calloc_node m of None \<Rightarrow> True | Some n \<Rightarrow> heap c n = None)"

definition node_create :: "put_alloc \<Rightarrow> cache_t \<Rightarrow> string \<Rightarrow> string \<Rightarrow> addr option \<times> cache_t" where
  "node_create m c k v =
     (case calloc_node m of
        None \<Rightarrow> (None, c)
      | Some n \<Rightarrow>
          if \<not> strdup_key m \<or> \<not> strdup_value m then (None, c)
          else
            let c1 = strdup_at (strdup_at c (key_block m)) (value_block m) in
            (Some n, c1\<lparr>heap := (heap c1)(n \<mapsto>
               \<lparr>key = k, value_n = v, prev = None, next_n = None, hnext = None,
                key_p = key_block m, value_p = value_block m\<rparr>)\<rparr>))"

definition node_free :: "cache_t \<Rightarrow> addr option \<Rightarrow> cache_t option" where
  "node_free c p =
     (case p of
        None \<Rightarrow> Some c
      | Some n \<Rightarrow>
          (case heap c n of None \<Rightarrow> None
           | Some nd \<Rightarrow>
               let c1 = free_str (free_str c (key_p nd)) (value_p nd) in
               Some (c1\<lparr>heap := (heap c1)(n := None)\<rparr>)))"

subsection \<open>The recency list\<close>

definition dll_remove :: "cache_t \<Rightarrow> addr \<Rightarrow> cache_t option" where
  "dll_remove c n = do {
     nd \<leftarrow> heap c n;
     c1 \<leftarrow> (case prev nd of
             Some p \<Rightarrow> set_next c p (next_n nd)
           | None \<Rightarrow> Some (c\<lparr>head := next_n nd\<rparr>));
     nd1 \<leftarrow> heap c1 n;
     c2 \<leftarrow> (case next_n nd1 of
             Some q \<Rightarrow> set_prev c1 q (prev nd1)
           | None \<Rightarrow> Some (c1\<lparr>tail := prev nd1\<rparr>));
     c3 \<leftarrow> set_next c2 n None;
     set_prev c3 n None
   }"

definition dll_push_head :: "cache_t \<Rightarrow> addr \<Rightarrow> cache_t option" where
  "dll_push_head c n = do {
     c1 \<leftarrow> set_prev c n None;
     c2 \<leftarrow> set_next c1 n (head c1);
     c3 \<leftarrow> (case head c2 of
             Some h \<Rightarrow> set_prev c2 h (Some n)
           | None \<Rightarrow> Some c2);
     let c4 = c3\<lparr>head := Some n\<rparr>;
     Some (if tail c4 = None then c4\<lparr>tail := Some n\<rparr> else c4)
   }"

subsection \<open>The hash table\<close>

text \<open>
  The loop \<^verbatim>\<open>while (cur) { if (strcmp(cur->key, key) == 0) break; cur = cur->hnext; }\<close>
  of \<open>cache_get\<close>; \<open>cache_put\<close> runs the same scan and acts on the node found inside
  the loop body. The result is the final \<^verbatim>\<open>cur\<close>.
\<close>

partial_function (option) bucket_scan :: "(addr \<rightharpoonup> node) \<Rightarrow> string \<Rightarrow> addr option \<Rightarrow> addr option option" where
  "bucket_scan h k cur =
     (case cur of
        None \<Rightarrow> Some None
      | Some a \<Rightarrow>
          (case h a of None \<Rightarrow> None
           | Some nd \<Rightarrow> if key nd = k then Some (Some a) else bucket_scan h k (hnext nd)))"

text \<open>The loop of \<open>cache_delete\<close>, which also keeps \<^verbatim>\<open>prev\<close>: the result is \<^verbatim>\<open>(cur, prev)\<close>.\<close>

partial_function (option) bucket_scan_prev ::
    "(addr \<rightharpoonup> node) \<Rightarrow> string \<Rightarrow> addr option \<Rightarrow> addr option \<Rightarrow> (addr option \<times> addr option) option" where
  "bucket_scan_prev h k cur prv =
     (case cur of
        None \<Rightarrow> Some (None, prv)
      | Some a \<Rightarrow>
          (case h a of None \<Rightarrow> None
           | Some nd \<Rightarrow> if key nd = k then Some (Some a, prv)
                        else bucket_scan_prev h k (hnext nd) (Some a)))"

text \<open>The loop of \<open>htable_remove\<close>, which compares pointers and unlinks inside the loop.\<close>

partial_function (option) htable_remove_loop ::
    "cache_t \<Rightarrow> nat \<Rightarrow> addr \<Rightarrow> addr option \<Rightarrow> addr option \<Rightarrow> cache_t option" where
  "htable_remove_loop c hv n cur prv =
     (case cur of
        None \<Rightarrow> Some c
      | Some a \<Rightarrow>
          (case heap c a of None \<Rightarrow> None
           | Some nd \<Rightarrow>
               if a = n then
                 (case (case prv of
                          Some p \<Rightarrow> set_hnext c p (hnext nd)
                        | None \<Rightarrow> htable_store c hv (hnext nd)) of
                    None \<Rightarrow> None
                  | Some c1 \<Rightarrow> set_hnext c1 a None)
               else htable_remove_loop c hv n (hnext nd) (Some a)))"

declare bucket_scan.simps [code] bucket_scan_prev.simps [code] htable_remove_loop.simps [code]

definition htable_remove :: "cache_t \<Rightarrow> addr \<Rightarrow> cache_t option" where
  "htable_remove c n = do {
     nd \<leftarrow> heap c n;
     hv \<leftarrow> bucket_index c (key nd);
     cur \<leftarrow> htable_load c hv;
     htable_remove_loop c hv n cur None
   }"

definition htable_insert :: "cache_t \<Rightarrow> addr \<Rightarrow> cache_t option" where
  "htable_insert c n = do {
     nd \<leftarrow> heap c n;
     hv \<leftarrow> bucket_index c (key nd);
     b \<leftarrow> htable_load c hv;
     c1 \<leftarrow> set_hnext c n b;
     htable_store c1 hv (Some n)
   }"

subsection \<open>The lock\<close>

definition rwlock_rdlock :: "cache_t \<Rightarrow> cache_t" where
  "rwlock_rdlock c = c\<lparr>lock := lock c @ [RdLock]\<rparr>"

definition rwlock_wrlock :: "cache_t \<Rightarrow> cache_t" where
  "rwlock_wrlock c = c\<lparr>lock := lock c @ [WrLock]\<rparr>"

definition rwlock_unlock :: "cache_t \<Rightarrow> cache_t" where
  "rwlock_unlock c = c\<lparr>lock := lock c @ [Unlock]\<rparr>"

subsection \<open>The public operations\<close>

text \<open>
  \<^verbatim>\<open>calloc(nmemb, size)\<close> returns \<^verbatim>\<open>NULL\<close> when the allocator has no memory
  (the flag is false) and when \<open>nmemb * size\<close> is not a \<^verbatim>\<open>size_t\<close>. On LP64 Linux
  \<^verbatim>\<open>sizeof(cache_t)\<close> is 104 and \<^verbatim>\<open>sizeof(node*)\<close> is 8.
\<close>

definition calloc_ok :: "bool \<Rightarrow> size_t \<Rightarrow> nat \<Rightarrow> bool" where
  "calloc_ok ok nmemb sz = (ok \<and> unat nmemb * sz < 2 ^ 64)"

record create_alloc =
  calloc_cache :: bool
  calloc_htable :: bool

definition cache_create :: "create_alloc \<Rightarrow> size_t \<Rightarrow> cache_t option" where
  "cache_create m cap =
     (if cap = 0 then None
      else if \<not> calloc_ok (calloc_cache m) 1 104 then None
      else
        let hs = cap * 2 + 1 in
        if \<not> calloc_ok (calloc_htable m) hs 8 then None
        else Some \<lparr>capacity = cap, size_c = 0, hsize = hs,
                   htable = replicate (unat hs) None,
                   head = None, tail = None, lock = [Init], heap = Map.empty,
                   strings = {}\<rparr>)"

text \<open>The block \<^verbatim>\<open>if (cache->size > cache->capacity) { ... }\<close> of \<open>cache_put\<close>.\<close>

definition evict :: "cache_t \<Rightarrow> cache_t option" where
  "evict c =
     (if size_c c > capacity c then
        (case tail c of
           Some ev \<Rightarrow> do {
             c1 \<leftarrow> dll_remove c ev;
             c2 \<leftarrow> htable_remove c1 ev;
             node_free (c2\<lparr>size_c := size_c c2 - 1\<rparr>) (Some ev)
           }
         | None \<Rightarrow> Some c)
      else Some c)"

definition cache_put ::
    "put_alloc \<Rightarrow> cache_t option \<Rightarrow> string option \<Rightarrow> string option \<Rightarrow> (int \<times> cache_t option) option" where
  "cache_put m cache ko vo =
     (case (cache, ko, vo) of
        (Some c0, Some k, Some v) \<Rightarrow> do {
          let c = rwlock_wrlock c0;
          hv \<leftarrow> bucket_index c k;
          b \<leftarrow> htable_load c hv;
          cur \<leftarrow> bucket_scan (heap c) k b;
          (case cur of
             Some a \<Rightarrow>
               if \<not> strdup_nv m then Some (- 1, Some (rwlock_unlock c))
               else do {
                 let c1 = strdup_at c (nv_block m);
                 nd \<leftarrow> heap c1 a;
                 let c2 = free_str c1 (value_p nd);
                 c3 \<leftarrow> set_value c2 a (nv_block m) v;
                 c4 \<leftarrow> dll_remove c3 a;
                 c5 \<leftarrow> dll_push_head c4 a;
                 Some (0, Some (rwlock_unlock c5))
               }
           | None \<Rightarrow>
               (case node_create m c k v of
                  (None, c1) \<Rightarrow> Some (- 1, Some (rwlock_unlock c1))
                | (Some n, c1) \<Rightarrow> do {
                    c2 \<leftarrow> htable_insert c1 n;
                    c3 \<leftarrow> dll_push_head c2 n;
                    c4 \<leftarrow> evict (c3\<lparr>size_c := size_c c3 + 1\<rparr>);
                    Some (0, Some (rwlock_unlock c4))
                  }))
        }
      | _ \<Rightarrow> Some (- 1, cache))"

text \<open>\<^verbatim>\<open>strdup\<close> of \<open>cache_get\<close>: the copy, or \<^verbatim>\<open>NULL\<close> when it cannot be allocated.\<close>

definition strdup :: "bool \<Rightarrow> string \<Rightarrow> string option" where
  "strdup ok s = (if ok then Some s else None)"

definition cache_get ::
    "bool \<Rightarrow> cache_t option \<Rightarrow> string option \<Rightarrow> (string option \<times> cache_t option) option" where
  "cache_get ok cache ko =
     (case (cache, ko) of
        (Some c0, Some k) \<Rightarrow> do {
          let c = rwlock_rdlock c0;
          hv \<leftarrow> bucket_index c k;
          b \<leftarrow> htable_load c hv;
          cur \<leftarrow> bucket_scan (heap c) k b;
          (case cur of
             None \<Rightarrow> Some (None, Some (rwlock_unlock c))
           | Some _ \<Rightarrow> do {
               let c = rwlock_wrlock (rwlock_unlock c);
               hv \<leftarrow> bucket_index c k;
               b \<leftarrow> htable_load c hv;
               cur \<leftarrow> bucket_scan (heap c) k b;
               (case cur of
                  Some a \<Rightarrow> do {
                    c1 \<leftarrow> dll_remove c a;
                    c2 \<leftarrow> dll_push_head c1 a;
                    nd \<leftarrow> heap c2 a;
                    Some (strdup ok (value_n nd), Some (rwlock_unlock c2))
                  }
                | None \<Rightarrow> Some (None, Some (rwlock_unlock c)))
             })
        }
      | _ \<Rightarrow> Some (None, cache))"

definition cache_delete ::
    "cache_t option \<Rightarrow> string option \<Rightarrow> (int \<times> cache_t option) option" where
  "cache_delete cache ko =
     (case (cache, ko) of
        (Some c0, Some k) \<Rightarrow> do {
          let c = rwlock_wrlock c0;
          hv \<leftarrow> bucket_index c k;
          b \<leftarrow> htable_load c hv;
          (cur, prv) \<leftarrow> bucket_scan_prev (heap c) k b None;
          (case cur of
             None \<Rightarrow> Some (1, Some (rwlock_unlock c))
           | Some a \<Rightarrow> do {
               nd \<leftarrow> heap c a;
               c1 \<leftarrow> (case prv of
                       Some p \<Rightarrow> set_hnext c p (hnext nd)
                     | None \<Rightarrow> htable_store c hv (hnext nd));
               c2 \<leftarrow> dll_remove c1 a;
               c3 \<leftarrow> node_free c2 (Some a);
               Some (0, Some (rwlock_unlock (c3\<lparr>size_c := size_c c3 - 1\<rparr>)))
             })
        }
      | _ \<Rightarrow> Some (- 1, cache))"

section \<open>Sequences of operations\<close>

text \<open>
  A call of a public operation on a cache and non-null arguments, with what the
  allocator answers during the call. \<open>step\<close> is the cache after the call and \<open>run\<close>
  the cache after a sequence of calls; \<open>fresh_run\<close> says that every address the allocator
  hands out during the sequence is not allocated at that moment.
\<close>

datatype op = Put put_alloc string string | Get bool string | Delete string

fun step :: "cache_t \<Rightarrow> op \<Rightarrow> cache_t option" where
  "step c (Put m k v) =
     (case cache_put m (Some c) (Some k) (Some v) of Some (r, Some c') \<Rightarrow> Some c' | _ \<Rightarrow> None)"
| "step c (Get ok k) =
     (case cache_get ok (Some c) (Some k) of Some (r, Some c') \<Rightarrow> Some c' | _ \<Rightarrow> None)"
| "step c (Delete k) =
     (case cache_delete (Some c) (Some k) of Some (r, Some c') \<Rightarrow> Some c' | _ \<Rightarrow> None)"

fun run :: "cache_t \<Rightarrow> op list \<Rightarrow> cache_t option" where
  "run c [] = Some c"
| "run c (x # xs) = (case step c x of None \<Rightarrow> None | Some c' \<Rightarrow> run c' xs)"

fun op_fresh :: "cache_t \<Rightarrow> op \<Rightarrow> bool" where
  "op_fresh c (Put m k v) = alloc_fresh m c"
| "op_fresh c (Get ok k) = True"
| "op_fresh c (Delete k) = True"

fun fresh_run :: "cache_t \<Rightarrow> op list \<Rightarrow> bool" where
  "fresh_run c [] = True"
| "fresh_run c (x # xs) =
     (op_fresh c x \<and> (case step c x of None \<Rightarrow> True | Some c' \<Rightarrow> fresh_run c' xs))"

subsection \<open>The two critical sections of \<open>cache_get\<close>\<close>

text \<open>
  \<open>cache_get\<close> releases the lock once before it returns from a hit
  (\<^verbatim>\<open>pthread_rwlock_unlock\<close> followed by \<^verbatim>\<open>pthread_rwlock_wrlock\<close>), so it runs in
  two critical sections. \<open>get_shared\<close> is the first, from \<^verbatim>\<open>rdlock\<close> to the first
  \<^verbatim>\<open>unlock\<close>: its result says whether the scan found the key. \<open>get_exclusive\<close> is the
  second, from \<^verbatim>\<open>wrlock\<close> to the return.
\<close>

definition get_shared :: "cache_t \<Rightarrow> string \<Rightarrow> (bool \<times> cache_t) option" where
  "get_shared c0 k = do {
     let c = rwlock_rdlock c0;
     hv \<leftarrow> bucket_index c k;
     b \<leftarrow> htable_load c hv;
     cur \<leftarrow> bucket_scan (heap c) k b;
     Some (cur \<noteq> None, rwlock_unlock c)
   }"

definition get_exclusive :: "bool \<Rightarrow> cache_t \<Rightarrow> string \<Rightarrow> (string option \<times> cache_t) option" where
  "get_exclusive ok c0 k = do {
     let c = rwlock_wrlock c0;
     hv \<leftarrow> bucket_index c k;
     b \<leftarrow> htable_load c hv;
     cur \<leftarrow> bucket_scan (heap c) k b;
     (case cur of
        Some a \<Rightarrow> do {
          c1 \<leftarrow> dll_remove c a;
          c2 \<leftarrow> dll_push_head c1 a;
          nd \<leftarrow> heap c2 a;
          Some (strdup ok (value_n nd), rwlock_unlock c2)
        }
      | None \<Rightarrow> Some (None, rwlock_unlock c))
   }"

text \<open>
  A \<open>cache_get\<close> of one thread while other threads call the cache. The lock lets
  no thread write the cache during the first section and no thread at all run during the
  second, so what the other threads do to the cache in the course of the call they do
  between the two sections: here they complete the calls \<open>ops\<close> there. With no such
  call this is \<open>cache_get\<close> itself.
\<close>

definition get_among :: "bool \<Rightarrow> cache_t \<Rightarrow> string \<Rightarrow> op list \<Rightarrow> (string option \<times> cache_t) option" where
  "get_among ok c k ops = do {
     (found, c1) \<leftarrow> get_shared c k;
     if found then do {
       c2 \<leftarrow> run c1 ops;
       get_exclusive ok c2 k
     }
     else Some (None, c1)
   }"

text \<open>
  \<^verbatim>\<open>strdup\<close> never returns the address of an allocated block, nor the same block
  twice: \<open>strings_fresh\<close> says so of the blocks given for one \<open>put\<close>, and
  \<open>strings_fresh_run\<close> of those given during a sequence of calls.
\<close>

definition strings_fresh :: "put_alloc \<Rightarrow> cache_t \<Rightarrow> bool" where
  "strings_fresh m c \<longleftrightarrow>
     nv_block m \<notin> strings c \<and> key_block m \<notin> strings c \<and> value_block m \<notin> strings c \<and>
     key_block m \<noteq> value_block m"

fun op_strings_fresh :: "cache_t \<Rightarrow> op \<Rightarrow> bool" where
  "op_strings_fresh c (Put m k v) = strings_fresh m c"
| "op_strings_fresh c (Get ok k) = True"
| "op_strings_fresh c (Delete k) = True"

fun strings_fresh_run :: "cache_t \<Rightarrow> op list \<Rightarrow> bool" where
  "strings_fresh_run c [] = True"
| "strings_fresh_run c (x # xs) =
     (op_strings_fresh c x \<and>
      (case step c x of None \<Rightarrow> True | Some c' \<Rightarrow> strings_fresh_run c' xs))"

text \<open>A sequence of \<open>put\<close> calls, each with its allocator answers, key and value.\<close>

definition put_ops :: "(put_alloc \<times> string \<times> string) list \<Rightarrow> op list" where
  "put_ops ps = map (\<lambda>(m, k, v). Put m k v) ps"

text \<open>The result of a lookup that changes nothing but the order: is the key in the cache?\<close>

definition lookup :: "cache_t \<Rightarrow> string \<Rightarrow> string option option" where
  "lookup c k = map_option fst (cache_get True (Some c) (Some k))"

section \<open>Abstraction: the lists behind the pointers\<close>

definition first :: "'a list \<Rightarrow> 'a option" where
  "first xs = (case xs of [] \<Rightarrow> None | x # _ \<Rightarrow> Some x)"

text \<open>The element that follows \<open>a\<close> in a list.\<close>

fun succ_of :: "'a list \<Rightarrow> 'a \<Rightarrow> 'a option" where
  "succ_of [] a = None"
| "succ_of (x # xs) a = (if x = a then first xs else succ_of xs a)"

text \<open>
  \<open>path f h p ys\<close>: following the pointer field \<open>f\<close> from \<open>p\<close> visits exactly the
  allocated nodes \<open>ys\<close>, in this order, and ends in \<^verbatim>\<open>NULL\<close>.
\<close>

fun path :: "(node \<Rightarrow> addr option) \<Rightarrow> (addr \<rightharpoonup> node) \<Rightarrow> addr option \<Rightarrow> addr list \<Rightarrow> bool" where
  "path f h p [] = (p = None)"
| "path f h p (a # as) =
     (p = Some a \<and> (case h a of None \<Rightarrow> False | Some nd \<Rightarrow> path f h (f nd) as))"

text \<open>
  The recency list is \<open>xs\<close>, most recently used first: \<^verbatim>\<open>next\<close> leads from
  \<^verbatim>\<open>head\<close> through \<open>xs\<close>, and \<^verbatim>\<open>prev\<close> from \<^verbatim>\<open>tail\<close> through its reverse.
\<close>

definition dll_inv :: "cache_t \<Rightarrow> addr list \<Rightarrow> bool" where
  "dll_inv c xs \<longleftrightarrow>
     distinct xs \<and> path next_n (heap c) (head c) xs \<and> path prev (heap c) (tail c) (rev xs)"

text \<open>The bucket of the node at an address.\<close>

definition slot_of :: "cache_t \<Rightarrow> addr \<Rightarrow> nat option" where
  "slot_of c a = (case heap c a of None \<Rightarrow> None | Some nd \<Rightarrow> bucket_index c (key nd))"

text \<open>
  The hash index holds \<open>xs\<close>: the array has \<^verbatim>\<open>hsize\<close> buckets, and the chain of
  bucket \<open>i\<close> holds, once each, the nodes of \<open>xs\<close> whose key hashes to \<open>i\<close>.
\<close>

definition bucket_inv :: "cache_t \<Rightarrow> addr list \<Rightarrow> bool" where
  "bucket_inv c xs \<longleftrightarrow>
     hsize c \<noteq> 0 \<and> length (htable c) = unat (hsize c) \<and>
     (\<forall>i<length (htable c). \<exists>ys. path hnext (heap c) (htable c ! i) ys \<and> distinct ys \<and>
        set ys = {a \<in> set xs. slot_of c a = Some i})"

definition has_key :: "(addr \<rightharpoonup> node) \<Rightarrow> string \<Rightarrow> addr \<Rightarrow> bool" where
  "has_key h k a = (case h a of None \<Rightarrow> False | Some nd \<Rightarrow> key nd = k)"

definition kv_at :: "cache_t \<Rightarrow> addr \<Rightarrow> string \<times> string" where
  "kv_at c a = (case heap c a of None \<Rightarrow> ([], []) | Some nd \<Rightarrow> (key nd, value_n nd))"

text \<open>The key-value pairs of the nodes \<open>xs\<close>, in the order of \<open>xs\<close>.\<close>

definition entries :: "cache_t \<Rightarrow> addr list \<Rightarrow> (string \<times> string) list" where
  "entries c xs = map (kv_at c) xs"

text \<open>
  The invariant of the cache between two public operations, for the recency list \<open>xs\<close>:
  both structures hold \<open>xs\<close>, no other node is allocated, no two nodes have the same key,
  \<^verbatim>\<open>size\<close> counts the nodes and is at most \<^verbatim>\<open>capacity\<close>, and the sizes are those that
  \<open>cache_create\<close> computed.
\<close>

definition sizes_inv :: "cache_t \<Rightarrow> bool" where
  "sizes_inv c \<longleftrightarrow>
     capacity c \<noteq> 0 \<and> hsize c = capacity c * 2 + 1 \<and> unat (hsize c) * 8 < 2 ^ 64"

definition cache_inv :: "cache_t \<Rightarrow> addr list \<Rightarrow> bool" where
  "cache_inv c xs \<longleftrightarrow>
     dll_inv c xs \<and> bucket_inv c xs \<and> dom (heap c) = set xs \<and>
     distinct (map fst (entries c xs)) \<and>
     unat (size_c c) = length xs \<and> size_c c \<le> capacity c \<and> sizes_inv c"

text \<open>
  The blocks of the two strings of the node at an address, and those of the nodes \<open>xs\<close>.
  The storage of the strings is in order when the allocated blocks are the blocks of the
  nodes of the cache, no block being the key or the value of two nodes or both the key
  and the value of one.
\<close>

definition blocks_at :: "cache_t \<Rightarrow> addr \<Rightarrow> addr list" where
  "blocks_at c a = (case heap c a of None \<Rightarrow> [] | Some nd \<Rightarrow> [key_p nd, value_p nd])"

definition owned :: "cache_t \<Rightarrow> addr list \<Rightarrow> addr list" where
  "owned c xs = concat (map (blocks_at c) xs)"

definition storage_inv :: "cache_t \<Rightarrow> addr list \<Rightarrow> bool" where
  "storage_inv c xs \<longleftrightarrow> distinct (owned c xs) \<and> strings c = set (owned c xs)"

text \<open>The cache holds the key-value pairs \<open>es\<close>, most recently used first.\<close>

definition cache_rel :: "cache_t \<Rightarrow> (string \<times> string) list \<Rightarrow> bool" where
  "cache_rel c es \<longleftrightarrow> (\<exists>xs. cache_inv c xs \<and> entries c xs = es)"

text \<open>Two caches that differ at most in the links of the recency list.\<close>

definition same_data :: "cache_t \<Rightarrow> cache_t \<Rightarrow> bool" where
  "same_data c c' \<longleftrightarrow>
     capacity c' = capacity c \<and> size_c c' = size_c c \<and> hsize c' = hsize c \<and>
     htable c' = htable c \<and> lock c' = lock c \<and> strings c' = strings c \<and>
     (\<forall>a. map_option (\<lambda>nd. (key nd, value_n nd, hnext nd, key_p nd, value_p nd)) (heap c' a) =
          map_option (\<lambda>nd. (key nd, value_n nd, hnext nd, key_p nd, value_p nd)) (heap c a))"

text \<open>Two caches that differ at most in the bucket array and the links of the chains.\<close>

definition same_links :: "cache_t \<Rightarrow> cache_t \<Rightarrow> bool" where
  "same_links c c' \<longleftrightarrow>
     capacity c' = capacity c \<and> size_c c' = size_c c \<and> hsize c' = hsize c \<and>
     length (htable c') = length (htable c) \<and> head c' = head c \<and> tail c' = tail c \<and>
     lock c' = lock c \<and> strings c' = strings c \<and>
     (\<forall>a. map_option (\<lambda>nd. (key nd, value_n nd, prev nd, next_n nd, key_p nd, value_p nd))
            (heap c' a) =
          map_option (\<lambda>nd. (key nd, value_n nd, prev nd, next_n nd, key_p nd, value_p nd))
            (heap c a))"

text \<open>What \<open>dll_remove\<close> of the node \<open>nd\<close> does to the links of another node at \<open>a\<close>.\<close>

definition relink :: "node \<Rightarrow> addr \<Rightarrow> node \<Rightarrow> node" where
  "relink nd a ad =
     ad\<lparr>next_n := (if prev nd = Some a then next_n nd else next_n ad),
        prev := (if next_n nd = Some a then prev nd else prev ad)\<rparr>"

text \<open>
  Taking the node at \<open>n\<close> out of the chain of bucket \<open>hv\<close>, when \<open>q\<close> is the node before
  it in the chain: the assignment shared by \<open>htable_remove\<close> and \<open>cache_delete\<close>.
\<close>

definition unlink_at :: "cache_t \<Rightarrow> nat \<Rightarrow> addr \<Rightarrow> addr option \<Rightarrow> cache_t option" where
  "unlink_at c hv n q =
     (case heap c n of None \<Rightarrow> None
      | Some nd \<Rightarrow>
          (case q of Some p \<Rightarrow> set_hnext c p (hnext nd)
           | None \<Rightarrow> htable_store c hv (hnext nd)))"

section \<open>The specification's view: an association list in recency order\<close>

text \<open>
  What the specification says of each operation, on the list of key-value pairs with
  the most recently used first.
\<close>

definition spec_touch :: "string \<Rightarrow> string \<Rightarrow> (string \<times> string) list \<Rightarrow> (string \<times> string) list" where
  "spec_touch k v es = (k, v) # filter (\<lambda>e. fst e \<noteq> k) es"

definition spec_delete :: "string \<Rightarrow> (string \<times> string) list \<Rightarrow> (string \<times> string) list" where
  "spec_delete k es = filter (\<lambda>e. fst e \<noteq> k) es"

definition node_alloc_ok :: "put_alloc \<Rightarrow> bool" where
  "node_alloc_ok m \<longleftrightarrow> calloc_node m \<noteq> None \<and> strdup_key m \<and> strdup_value m"

definition spec_put ::
    "put_alloc \<Rightarrow> nat \<Rightarrow> string \<Rightarrow> string \<Rightarrow> (string \<times> string) list \<Rightarrow> int \<times> (string \<times> string) list" where
  "spec_put m cap k v es =
     (if k \<in> fst ` set es then
        (if strdup_nv m then (0, spec_touch k v es) else (- 1, es))
      else if node_alloc_ok m then (0, take cap ((k, v) # es))
      else (- 1, es))"

definition spec_get ::
    "bool \<Rightarrow> string \<Rightarrow> (string \<times> string) list \<Rightarrow> string option \<times> (string \<times> string) list" where
  "spec_get ok k es =
     (case map_of es k of
        None \<Rightarrow> (None, es)
      | Some v \<Rightarrow> (if ok then Some v else None, spec_touch k v es))"

fun spec_step :: "nat \<Rightarrow> (string \<times> string) list \<Rightarrow> op \<Rightarrow> (string \<times> string) list" where
  "spec_step cap es (Put m k v) = snd (spec_put m cap k v es)"
| "spec_step cap es (Get ok k) = snd (spec_get ok k es)"
| "spec_step cap es (Delete k) = spec_delete k es"

section \<open>Observations and example inputs\<close>

text \<open>The calls that one \<open>cache_get\<close> makes on the lock.\<close>

definition get_lock_calls :: "bool \<Rightarrow> cache_t \<Rightarrow> string \<Rightarrow> lock_event list option" where
  "get_lock_calls ok c k =
     (case cache_get ok (Some c) (Some k) of
        Some (r, Some c') \<Rightarrow> Some (drop (length (lock c)) (lock c'))
      | _ \<Rightarrow> None)"

text \<open>The operation is a \<open>put\<close> of the key \<open>k\<close>.\<close>

fun puts_key :: "string \<Rightarrow> op \<Rightarrow> bool" where
  "puts_key k (Put m k' v) = (k' = k)"
| "puts_key k (Get ok k') = False"
| "puts_key k (Delete k') = False"

text \<open>The key on which an operation acts.\<close>

fun op_key :: "op \<Rightarrow> string" where
  "op_key (Put m k v) = k"
| "op_key (Get ok k) = k"
| "op_key (Delete k) = k"

text \<open>
  An allocator with memory, that puts a new node at \<open>n\<close>, the copy of a key at \<open>2 * n\<close>
  and the copy of a value at \<open>2 * n + 1\<close>; one without memory.
\<close>

definition ok_create :: create_alloc where
  "ok_create = \<lparr>calloc_cache = True, calloc_htable = True\<rparr>"

definition alloc_at :: "addr \<Rightarrow> put_alloc" where
  "alloc_at n =
     \<lparr>strdup_nv = True, calloc_node = Some n, strdup_key = True, strdup_value = True,
      nv_block = 2 * n + 1, key_block = 2 * n, value_block = 2 * n + 1\<rparr>"

definition no_memory :: put_alloc where
  "no_memory =
     \<lparr>strdup_nv = False, calloc_node = None, strdup_key = False, strdup_value = False,
      nv_block = 0, key_block = 0, value_block = 0\<rparr>"

text \<open>
  The empty cache of capacity 2, as \<open>cache_create\<close> returns it, and the same cache after
  \<^verbatim>\<open>put("a", "1")\<close> with the new node at address 1 (\<^verbatim>\<open>"a"\<close> hashes to bucket 0 of 5).
\<close>

definition empty2 :: cache_t where
  "empty2 =
     \<lparr>capacity = 2, size_c = 0, hsize = 5, htable = [None, None, None, None, None],
      head = None, tail = None, lock = [Init], heap = Map.empty, strings = {}\<rparr>"

definition cache_a :: cache_t where
  "cache_a =
     \<lparr>capacity = 2, size_c = 1, hsize = 5, htable = [Some 1, None, None, None, None],
      head = Some 1, tail = Some 1, lock = [Init, WrLock, Unlock],
      heap = [1 \<mapsto> \<lparr>key = ''a'', value_n = ''1'', prev = None, next_n = None, hnext = None,
                     key_p = 2, value_p = 3\<rparr>],
      strings = {2, 3}\<rparr>"

text \<open>
  Then \<^verbatim>\<open>put("b", "2")\<close> with the new node at address 2 (bucket 1), and then
  \<^verbatim>\<open>put("c", "3")\<close> with the new node at address 3 (bucket 2), which evicts \<^verbatim>\<open>"a"\<close>.
\<close>

definition cache_ab :: cache_t where
  "cache_ab =
     \<lparr>capacity = 2, size_c = 2, hsize = 5, htable = [Some 1, Some 2, None, None, None],
      head = Some 2, tail = Some 1, lock = [Init, WrLock, Unlock, WrLock, Unlock],
      heap = [1 \<mapsto> \<lparr>key = ''a'', value_n = ''1'', prev = Some 2, next_n = None, hnext = None,
                     key_p = 2, value_p = 3\<rparr>,
              2 \<mapsto> \<lparr>key = ''b'', value_n = ''2'', prev = None, next_n = Some 1, hnext = None,
                     key_p = 4, value_p = 5\<rparr>],
      strings = {2, 3, 4, 5}\<rparr>"

definition cache_bc :: cache_t where
  "cache_bc =
     \<lparr>capacity = 2, size_c = 2, hsize = 5, htable = [None, Some 2, Some 3, None, None],
      head = Some 3, tail = Some 2,
      lock = [Init, WrLock, Unlock, WrLock, Unlock, WrLock, Unlock],
      heap = [2 \<mapsto> \<lparr>key = ''b'', value_n = ''2'', prev = Some 3, next_n = None, hnext = None,
                     key_p = 4, value_p = 5\<rparr>,
              3 \<mapsto> \<lparr>key = ''c'', value_n = ''3'', prev = None, next_n = Some 2, hnext = None,
                     key_p = 6, value_p = 7\<rparr>],
      strings = {4, 5, 6, 7}\<rparr>"

definition abc_puts :: "(put_alloc \<times> string \<times> string) list" where
  "abc_puts = [(alloc_at 1, ''a'', ''1''), (alloc_at 2, ''b'', ''2''), (alloc_at 3, ''c'', ''3'')]"

section \<open>Proofs\<close>

subsection \<open>Lists, paths and the links of the recency list\<close>

lemma first_simps [simp]: "first [] = None" "first (x # xs) = Some x"
  by (simp_all add: first_def)

lemma first_None [simp]: "first xs = None \<longleftrightarrow> xs = []"
  by (cases xs) simp_all

lemma first_in: "first xs = Some a \<Longrightarrow> a \<in> set xs"
  by (cases xs) auto

lemma first_append: "first (xs @ ys) = (if xs = [] then first ys else first xs)"
  by (cases xs) simp_all

lemma first_rev_Cons: "first (rev (x # xs)) = (if xs = [] then Some x else first (rev xs))"
  by (simp add: first_append)

lemma succ_of_notin: "a \<notin> set xs \<Longrightarrow> succ_of xs a = None"
  by (induction xs) auto

lemma succ_of_in: "succ_of xs a = Some b \<Longrightarrow> a \<in> set xs \<and> b \<in> set xs"
  by (induction xs) (auto split: if_splits dest: first_in)

lemma succ_of_not_first: "distinct xs \<Longrightarrow> succ_of xs a = Some b \<Longrightarrow> first xs \<noteq> Some b"
  by (induction xs) (auto split: if_splits dest: first_in succ_of_in)

lemma succ_of_append:
  "distinct xs \<Longrightarrow> succ_of (xs @ ys) a =
     (if a \<in> set xs then (if first (rev xs) = Some a then first ys else succ_of xs a)
      else succ_of ys a)"
proof (induction xs)
  case Nil
  then show ?case by simp
next
  case (Cons x xs)
  then show ?case
    by (cases xs) (auto simp: first_append dest: first_in)
qed

lemma succ_of_rev:
  "distinct xs \<Longrightarrow> succ_of (rev xs) b = Some a \<longleftrightarrow> succ_of xs a = Some b"
proof (induction xs)
  case Nil
  then show ?case by simp
next
  case (Cons x xs)
  then have d: "distinct (rev xs)" and ih: "succ_of (rev xs) b = Some a \<longleftrightarrow> succ_of xs a = Some b"
    by simp_all
  show ?case
  proof (cases "x = a")
    case True
    with Cons.prems have "succ_of xs a = None" by (simp add: succ_of_notin)
    with True ih show ?thesis
      by (auto simp: succ_of_append [OF d] dest: first_in)
  next
    case False
    with ih Cons.prems show ?thesis
      by (auto simp: succ_of_append [OF d] dest: succ_of_in succ_of_not_first)
  qed
qed

lemma succ_of_inj:
  assumes "distinct xs" "succ_of xs a = Some n" "succ_of xs b = Some n"
  shows "a = b"
proof -
  from assms have "succ_of (rev xs) n = Some a" "succ_of (rev xs) n = Some b"
    by (simp_all add: succ_of_rev)
  then show ?thesis by simp
qed

lemma succ_of_irrefl: "distinct xs \<Longrightarrow> succ_of xs a \<noteq> Some a"
  by (induction xs) (auto dest: first_in)

lemma succ_of_None:
  "distinct xs \<Longrightarrow> a \<in> set xs \<Longrightarrow> succ_of xs a = None \<longleftrightarrow> first (rev xs) = Some a"
  by (induction xs) (auto simp: first_append dest: first_in)

lemma first_remove1:
  "distinct xs \<Longrightarrow> first (remove1 n xs) = (if first xs = Some n then succ_of xs n else first xs)"
  by (cases xs) auto

lemma succ_of_remove1:
  "distinct xs \<Longrightarrow> a \<noteq> n \<Longrightarrow>
   succ_of (remove1 n xs) a = (if succ_of xs a = Some n then succ_of xs n else succ_of xs a)"
proof (induction xs)
  case Nil
  then show ?case by simp
next
  case (Cons x xs)
  then show ?case
    by (auto simp: first_remove1 succ_of_notin dest: first_in succ_of_in)
qed

lemma rev_remove1: "distinct xs \<Longrightarrow> rev (remove1 n xs) = remove1 n (rev xs)"
  by (induction xs) (auto simp: remove1_append remove1_idem)

lemma succ_of_snoc:
  "distinct xs \<Longrightarrow> n \<notin> set xs \<Longrightarrow>
   succ_of (xs @ [n]) a =
     (if a = n then None else if first (rev xs) = Some a then Some n else succ_of xs a)"
  by (auto simp: succ_of_append succ_of_notin dest: first_in)

lemma path_cong:
  "(\<And>a. a \<in> set ys \<Longrightarrow> map_option f (h' a) = map_option f (h a)) \<Longrightarrow>
   path f h' p ys = path f h p ys"
proof (induction ys arbitrary: p)
  case Nil
  then show ?case by simp
next
  case (Cons b ys)
  from Cons.prems [of b] have b: "map_option f (h' b) = map_option f (h b)" by simp
  have ih: "path f h' q ys = path f h q ys" for q
    by (rule Cons.IH) (simp add: Cons.prems)
  from b show ?case
    by (cases "h b"; cases "h' b") (auto simp: ih)
qed

lemma path_iff:
  "distinct ys \<Longrightarrow>
   path f h p ys \<longleftrightarrow>
     (p = first ys \<and> (\<forall>a\<in>set ys. \<exists>nd. h a = Some nd \<and> f nd = succ_of ys a))"
proof (induction ys arbitrary: p)
  case Nil
  then show ?case by auto
next
  case (Cons b ys)
  then have ih: "\<And>q. path f h q ys \<longleftrightarrow>
     (q = first ys \<and> (\<forall>a\<in>set ys. \<exists>nd. h a = Some nd \<and> f nd = succ_of ys a))"
    by simp
  from Cons.prems have "b \<notin> set ys" by simp
  then have s: "\<And>a. a \<in> set ys \<Longrightarrow> succ_of (b # ys) a = succ_of ys a" by auto
  have "(\<forall>a\<in>set ys. \<exists>nd. h a = Some nd \<and> f nd = succ_of (b # ys) a) =
        (\<forall>a\<in>set ys. \<exists>nd. h a = Some nd \<and> f nd = succ_of ys a)"
    by (rule ball_cong) (simp_all del: succ_of.simps add: s)
  moreover have "succ_of (b # ys) b = first ys" by simp
  ultimately show ?case
    by (cases "h b") (auto simp: ih simp del: succ_of.simps)
qed

lemma dll_inv_links:
  "dll_inv c xs \<longleftrightarrow>
     distinct xs \<and> head c = first xs \<and> tail c = first (rev xs) \<and>
     (\<forall>a\<in>set xs. case heap c a of None \<Rightarrow> False
        | Some nd \<Rightarrow> next_n nd = succ_of xs a \<and> prev nd = succ_of (rev xs) a)"
proof (cases "distinct xs")
  case True
  then have dr: "distinct (rev xs)" by simp
  show ?thesis
    unfolding dll_inv_def path_iff [OF True] path_iff [OF dr]
    by (auto split: option.splits)
next
  case False
  then show ?thesis by (simp add: dll_inv_def)
qed

lemma bucket_scan_None [simp]: "bucket_scan h k None = Some None"
  by (subst bucket_scan.simps) simp

lemma bucket_scan_Some:
  "h a = Some nd \<Longrightarrow>
   bucket_scan h k (Some a) = (if key nd = k then Some (Some a) else bucket_scan h k (hnext nd))"
  by (subst bucket_scan.simps) simp

lemma bucket_scan_prev_None [simp]: "bucket_scan_prev h k None prv = Some (None, prv)"
  by (subst bucket_scan_prev.simps) simp

lemma bucket_scan_prev_Some:
  "h a = Some nd \<Longrightarrow>
   bucket_scan_prev h k (Some a) prv =
     (if key nd = k then Some (Some a, prv) else bucket_scan_prev h k (hnext nd) (Some a))"
  by (subst bucket_scan_prev.simps) simp

lemma bucket_scan_chain:
  "path hnext h p ys \<Longrightarrow> bucket_scan h k p = Some (find (has_key h k) ys)"
proof (induction ys arbitrary: p)
  case Nil
  then show ?case by simp
next
  case (Cons b ys)
  then obtain nd where nd: "p = Some b" "h b = Some nd" "path hnext h (hnext nd) ys"
    by (auto split: option.splits)
  from Cons.IH [OF nd(3)] nd(1,2) show ?case
    by (simp add: bucket_scan_Some has_key_def)
qed

lemma bucket_scan_prev_chain:
  "path hnext h p ys \<Longrightarrow> distinct ys \<Longrightarrow>
   \<exists>q. bucket_scan_prev h k p prv = Some (find (has_key h k) ys, q) \<and>
       (\<forall>a. find (has_key h k) ys = Some a \<longrightarrow>
            q = (if first ys = Some a then prv else succ_of (rev ys) a))"
proof (induction ys arbitrary: p prv)
  case Nil
  then show ?case by simp
next
  case (Cons b ys)
  then obtain nd where nd: "p = Some b" "h b = Some nd" "path hnext h (hnext nd) ys"
    by (auto split: option.splits)
  from Cons.prems have d: "distinct (rev ys)" and b: "b \<notin> set (rev ys)" by simp_all
  show ?case
  proof (cases "key nd = k")
    case True
    with nd show ?thesis by (simp add: bucket_scan_prev_Some has_key_def)
  next
    case False
    from Cons.IH [OF nd(3), of "Some b"] Cons.prems obtain q where
      q: "bucket_scan_prev h k (hnext nd) (Some b) = Some (find (has_key h k) ys, q)"
         "\<And>a. find (has_key h k) ys = Some a \<Longrightarrow>
            q = (if first ys = Some a then Some b else succ_of (rev ys) a)"
      by auto
    have "q = (if first (b # ys) = Some a then prv else succ_of (rev (b # ys)) a)"
      if a: "find (has_key h k) ys = Some a" for a
    proof -
      from a have "a \<in> set ys" by (auto simp: find_Some_iff)
      with Cons.prems have "a \<noteq> b" by auto
      with q(2) [OF a] show ?thesis
        by (simp add: succ_of_snoc [OF d b])
    qed
    moreover from False nd have "\<not> has_key h k b" by (simp add: has_key_def)
    ultimately show ?thesis using False nd q(1)
      by (simp add: bucket_scan_prev_Some)
  qed
qed

lemma htable_remove_loop_None [simp]: "htable_remove_loop c hv n None prv = Some c"
  by (subst htable_remove_loop.simps) simp

lemma htable_remove_loop_Some:
  "heap c a = Some nd \<Longrightarrow>
   htable_remove_loop c hv n (Some a) prv =
     (if a = n then
        (case (case prv of Some p \<Rightarrow> set_hnext c p (hnext nd)
               | None \<Rightarrow> htable_store c hv (hnext nd)) of
           None \<Rightarrow> None
         | Some c1 \<Rightarrow> set_hnext c1 a None)
      else htable_remove_loop c hv n (hnext nd) (Some a))"
  by (subst htable_remove_loop.simps) simp

lemma htable_remove_loop_chain:
  "path hnext (heap c) p ys \<Longrightarrow> distinct ys \<Longrightarrow> n \<in> set ys \<Longrightarrow>
   htable_remove_loop c hv n p prv =
     (case unlink_at c hv n (if first ys = Some n then prv else succ_of (rev ys) n) of
        None \<Rightarrow> None | Some c1 \<Rightarrow> set_hnext c1 n None)"
proof (induction ys arbitrary: p prv)
  case Nil
  then show ?case by simp
next
  case (Cons b ys)
  then obtain nd where nd: "p = Some b" "heap c b = Some nd" "path hnext (heap c) (hnext nd) ys"
    by (auto split: option.splits)
  from Cons.prems have d: "distinct (rev ys)" and b: "b \<notin> set (rev ys)" by simp_all
  show ?case
  proof (cases "b = n")
    case True
    with nd show ?thesis by (simp add: htable_remove_loop_Some unlink_at_def)
  next
    case False
    with Cons.prems have n: "n \<in> set ys" by simp
    from Cons.IH [OF nd(3) _ n, of "Some b"] Cons.prems False nd(1,2) show ?thesis
      by (simp add: htable_remove_loop_Some succ_of_snoc [OF d b])
  qed
qed

lemma dll_invD:
  assumes "dll_inv c xs" "a \<in> set xs"
  obtains nd where "heap c a = Some nd" "next_n nd = succ_of xs a" "prev nd = succ_of (rev xs) a"
  using assms unfolding dll_inv_links by (auto split: option.splits)

lemma set_next_Some:
  "heap c a = Some nd \<Longrightarrow> set_next c a p = Some (c\<lparr>heap := (heap c)(a \<mapsto> nd\<lparr>next_n := p\<rparr>)\<rparr>)"
  by (simp add: set_next_def)

lemma set_prev_Some:
  "heap c a = Some nd \<Longrightarrow> set_prev c a p = Some (c\<lparr>heap := (heap c)(a \<mapsto> nd\<lparr>prev := p\<rparr>)\<rparr>)"
  by (simp add: set_prev_def)

lemma map_option_id_iff: "(x = map_option f x) = (\<forall>y. x = Some y \<longrightarrow> f y = y)"
  by (cases x) auto

lemma dll_remove_eval:
  assumes nd: "heap c n = Some nd" and "prev nd \<noteq> Some n" "next_n nd \<noteq> Some n"
    and "\<And>p. prev nd = Some p \<Longrightarrow> heap c p \<noteq> None"
    and "\<And>q. next_n nd = Some q \<Longrightarrow> heap c q \<noteq> None"
  shows "dll_remove c n = Some (c\<lparr>
           head := (if prev nd = None then next_n nd else head c),
           tail := (if next_n nd = None then prev nd else tail c),
           heap := (\<lambda>a. if a = n then Some (nd\<lparr>next_n := None, prev := None\<rparr>)
                        else map_option (relink nd a) (heap c a))\<rparr>)"
proof -
  have "\<exists>c'. dll_remove c n = Some c'"
    using assms unfolding dll_remove_def
    by (cases "prev nd"; cases "next_n nd")
       (auto simp: set_next_def set_prev_def split: option.splits)
  then obtain c' where c': "dll_remove c n = Some c'" by blast
  have "head c' = (if prev nd = None then next_n nd else head c)"
    using assms c' unfolding dll_remove_def
    by (cases "prev nd"; cases "next_n nd")
       (auto simp: set_next_def set_prev_def split: option.splits)
  moreover have "tail c' = (if next_n nd = None then prev nd else tail c)"
    using assms c' unfolding dll_remove_def
    by (cases "prev nd"; cases "next_n nd")
       (auto simp: set_next_def set_prev_def split: option.splits)
  moreover have "cache_t.more c' = cache_t.more c \<and> capacity c' = capacity c \<and> size_c c' = size_c c \<and> hsize c' = hsize c \<and>
     htable c' = htable c \<and> lock c' = lock c \<and> strings c' = strings c"
    using assms c' unfolding dll_remove_def
    by (cases "prev nd"; cases "next_n nd")
       (auto simp: set_next_def set_prev_def split: option.splits)
  moreover have "heap c' a = (if a = n then Some (nd\<lparr>next_n := None, prev := None\<rparr>)
                        else map_option (relink nd a) (heap c a))" for a
    using assms c' unfolding dll_remove_def
    by (cases "prev nd"; cases "next_n nd")
       (auto simp: set_next_def set_prev_def relink_def map_option_id_iff split: option.splits if_splits)
  ultimately show ?thesis
    unfolding c' by (auto intro!: cache_t.equality ext)
qed

lemma dll_push_head_eval:
  assumes nd: "heap c n = Some nd" and "head c \<noteq> Some n"
    and "\<And>p. head c = Some p \<Longrightarrow> heap c p \<noteq> None"
  shows "dll_push_head c n = Some (c\<lparr>
           head := Some n,
           tail := (if tail c = None then Some n else tail c),
           heap := (\<lambda>a. if a = n then Some (nd\<lparr>prev := None, next_n := head c\<rparr>)
                        else if head c = Some a then map_option (\<lambda>ad. ad\<lparr>prev := Some n\<rparr>) (heap c a)
                        else heap c a)\<rparr>)"
proof -
  have "\<exists>c'. dll_push_head c n = Some c'"
    using assms unfolding dll_push_head_def
    by (cases "head c") (auto simp: set_next_def set_prev_def Let_def split: option.splits)
  then obtain c' where c': "dll_push_head c n = Some c'" by blast
  have "head c' = Some n"
    using assms c' unfolding dll_push_head_def
    by (cases "head c") (auto simp: set_next_def set_prev_def Let_def split: option.splits if_splits)
  moreover have "tail c' = (if tail c = None then Some n else tail c)"
    using assms c' unfolding dll_push_head_def
    by (cases "head c") (auto simp: set_next_def set_prev_def Let_def split: option.splits if_splits)
  moreover have "cache_t.more c' = cache_t.more c \<and> capacity c' = capacity c \<and>
     size_c c' = size_c c \<and> hsize c' = hsize c \<and> htable c' = htable c \<and> lock c' = lock c \<and>
     strings c' = strings c"
    using assms c' unfolding dll_push_head_def
    by (cases "head c") (auto simp: set_next_def set_prev_def Let_def split: option.splits if_splits)
  moreover have "heap c' a = (if a = n then Some (nd\<lparr>prev := None, next_n := head c\<rparr>)
                        else if head c = Some a then map_option (\<lambda>ad. ad\<lparr>prev := Some n\<rparr>) (heap c a)
                        else heap c a)" for a
    using assms c' unfolding dll_push_head_def
    by (cases "head c") (auto simp: set_next_def set_prev_def Let_def split: option.splits if_splits)
  ultimately show ?thesis
    unfolding c' by (auto intro!: cache_t.equality ext)
qed

lemma dll_remove_inv:
  assumes inv: "dll_inv c xs" and n: "n \<in> set xs"
  shows "\<exists>c'. dll_remove c n = Some c' \<and> dll_inv c' (remove1 n xs) \<and> same_data c c' \<and>
           (\<exists>nd. heap c' n = Some nd \<and> prev nd = None \<and> next_n nd = None)"
proof -
  from inv have d: "distinct xs" and dr: "distinct (rev xs)" by (simp_all add: dll_inv_links)
  from inv n obtain nd where nd: "heap c n = Some nd" "next_n nd = succ_of xs n"
      "prev nd = succ_of (rev xs) n"
    by (rule dll_invD)
  have all: "\<And>a. a \<in> set xs \<Longrightarrow> \<exists>ad. heap c a = Some ad \<and> next_n ad = succ_of xs a \<and>
      prev ad = succ_of (rev xs) a"
    using inv by (auto elim: dll_invD)
  have pn: "\<And>a. (prev nd = Some a) = (succ_of xs a = Some n)"
    using d nd(3) by (simp add: succ_of_rev)
  have nn: "\<And>a. (next_n nd = Some a) = (succ_of (rev xs) a = Some n)"
    using d nd(2) by (simp add: succ_of_rev)
  have hd: "(prev nd = None) = (first xs = Some n)"
    using succ_of_None [OF dr, of n] n nd(3) by simp
  have tl: "(next_n nd = None) = (first (rev xs) = Some n)"
    using succ_of_None [OF d, of n] n nd(2) by simp
  have ne1: "prev nd \<noteq> Some n" using nd(3) succ_of_irrefl [OF dr] by simp
  have ne2: "next_n nd \<noteq> Some n" using nd(2) succ_of_irrefl [OF d] by simp
  have al1: "\<And>p. prev nd = Some p \<Longrightarrow> heap c p \<noteq> None"
    using all nd(3) succ_of_in [of "rev xs" n] by fastforce
  have al2: "\<And>q. next_n nd = Some q \<Longrightarrow> heap c q \<noteq> None"
    using all nd(2) succ_of_in [of xs n] by fastforce
  note ev = dll_remove_eval [OF nd(1) ne1 ne2 al1 al2]
  have links: "case (if a = n then Some (nd\<lparr>next_n := None, prev := None\<rparr>)
                        else map_option (relink nd a) (heap c a)) of None \<Rightarrow> False
        | Some ad \<Rightarrow> next_n ad = succ_of (remove1 n xs) a \<and> prev ad = succ_of (rev (remove1 n xs)) a"
    if a: "a \<in> set (remove1 n xs)" for a
  proof -
    from a d have an: "a \<noteq> n" "a \<in> set xs" by auto
    from all [OF an(2)] obtain ad where ad: "heap c a = Some ad" "next_n ad = succ_of xs a"
      "prev ad = succ_of (rev xs) a" by blast
    show ?thesis
      using an ad nd(2,3) pn [of a] nn [of a]
      by (simp add: relink_def rev_remove1 [OF d] succ_of_remove1 [OF d] succ_of_remove1 [OF dr])
  qed
  let ?c' = "c\<lparr>
           head := (if prev nd = None then next_n nd else head c),
           tail := (if next_n nd = None then prev nd else tail c),
           heap := (\<lambda>a. if a = n then Some (nd\<lparr>next_n := None, prev := None\<rparr>)
                        else map_option (relink nd a) (heap c a))\<rparr>"
  have 2: "dll_inv ?c' (remove1 n xs)"
    unfolding dll_inv_links
    using inv links d hd tl nd(2,3)
    by (simp add: dll_inv_links first_remove1 rev_remove1 [OF d] first_remove1 [OF dr])
  have 3: "same_data c ?c'"
    using nd(1) by (auto simp: same_data_def relink_def option.map_comp comp_def)
  have 4: "\<exists>nd. heap ?c' n = Some nd \<and> prev nd = None \<and> next_n nd = None" by simp
  show ?thesis using ev 2 3 4 by blast
qed

lemma dll_push_head_inv:
  assumes inv: "dll_inv c xs" and n: "n \<notin> set xs" and nd: "heap c n = Some nd"
  shows "\<exists>c'. dll_push_head c n = Some c' \<and> dll_inv c' (n # xs) \<and> same_data c c'"
proof -
  from inv have d: "distinct xs" and dr: "distinct (rev xs)" 
    and hd: "head c = first xs" and tl: "tail c = first (rev xs)" by (simp_all add: dll_inv_links)
  have all: "\<And>a. a \<in> set xs \<Longrightarrow> \<exists>ad. heap c a = Some ad \<and> next_n ad = succ_of xs a \<and>
      prev ad = succ_of (rev xs) a"
    using inv by (auto elim: dll_invD)
  have h1: "head c \<noteq> Some n" using hd n first_in [of xs n] by auto
  have h2: "\<And>p. head c = Some p \<Longrightarrow> heap c p \<noteq> None"
    using hd all first_in by fastforce
  note ev = dll_push_head_eval [OF nd h1 h2]
  have nr: "n \<notin> set (rev xs)" using n by simp
  have links: "case (if a = n then Some (nd\<lparr>prev := None, next_n := head c\<rparr>)
                        else if head c = Some a then map_option (\<lambda>ad. ad\<lparr>prev := Some n\<rparr>) (heap c a)
                        else heap c a) of None \<Rightarrow> False
        | Some ad \<Rightarrow> next_n ad = succ_of (n # xs) a \<and> prev ad = succ_of (rev (n # xs)) a"
    if a: "a \<in> set (n # xs)" for a
  proof (cases "a = n")
    case True
    then show ?thesis using hd by (simp add: succ_of_snoc [OF dr nr])
  next
    case False
    with a have "a \<in> set xs" by simp
    from all [OF this] obtain ad where ad: "heap c a = Some ad" "next_n ad = succ_of xs a"
      "prev ad = succ_of (rev xs) a" by blast
    show ?thesis
      using False ad hd n by (auto simp: succ_of_snoc [OF dr nr])
  qed
  let ?c' = "c\<lparr>
           head := Some n,
           tail := (if tail c = None then Some n else tail c),
           heap := (\<lambda>a. if a = n then Some (nd\<lparr>prev := None, next_n := head c\<rparr>)
                        else if head c = Some a then map_option (\<lambda>ad. ad\<lparr>prev := Some n\<rparr>) (heap c a)
                        else heap c a)\<rparr>"
  have 2: "dll_inv ?c' (n # xs)"
    unfolding dll_inv_links
    using links d n tl
    by (simp add: first_append)
  have 3: "same_data c ?c'"
    using nd by (auto simp: same_data_def option.map_comp comp_def)
  show ?thesis using ev 2 3 by blast
qed

subsection \<open>Frame lemmas\<close>

lemma bucket_index_less:
  "hsize c \<noteq> 0 \<Longrightarrow> \<exists>i. bucket_index c k = Some i \<and> i < unat (hsize c)"
  by (simp add: bucket_index_def unat_mod unat_gt_0 [symmetric] word_gt_0)

lemma map_option_eq_fst:
  "map_option (\<lambda>nd. (f nd, g nd)) x = map_option (\<lambda>nd. (f nd, g nd)) y \<Longrightarrow>
   map_option f x = map_option f y \<and> map_option g x = map_option g y"
  by (cases x; cases y) auto

lemma bucket_inv_frame:
  assumes inv: "bucket_inv c xs" and hs: "hsize c' = hsize c" and ht: "htable c' = htable c"
    and eq: "\<And>a. a \<in> set xs \<Longrightarrow>
       map_option (\<lambda>nd. (key nd, hnext nd)) (heap c' a) = map_option (\<lambda>nd. (key nd, hnext nd)) (heap c a)"
  shows "bucket_inv c' xs"
proof -
  have k: "map_option key (heap c' a) = map_option key (heap c a)"
    and n: "map_option hnext (heap c' a) = map_option hnext (heap c a)" if "a \<in> set xs" for a
    using map_option_eq_fst [OF eq [OF that]] by simp_all
  have sl: "slot_of c' a = slot_of c a" if "a \<in> set xs" for a
    using k [OF that] hs
    by (cases "heap c a"; cases "heap c' a") (auto simp: slot_of_def bucket_index_def)
  have "\<exists>ys. path hnext (heap c') (htable c' ! i) ys \<and> distinct ys \<and>
        set ys = {a \<in> set xs. slot_of c' a = Some i}" if i: "i < length (htable c')" for i
  proof -
    from inv i ht obtain ys where ys: "path hnext (heap c) (htable c ! i) ys" "distinct ys"
      "set ys = {a \<in> set xs. slot_of c a = Some i}"
      by (auto simp: bucket_inv_def)
    have "path hnext (heap c') (htable c ! i) ys = path hnext (heap c) (htable c ! i) ys"
      by (rule path_cong) (use ys(3) n in auto)
    moreover have "{a \<in> set xs. slot_of c' a = Some i} = {a \<in> set xs. slot_of c a = Some i}"
      using sl by auto
    ultimately show ?thesis using ys ht by auto
  qed
  with inv hs ht show ?thesis by (simp add: bucket_inv_def)
qed

lemma dll_inv_frame:
  assumes inv: "dll_inv c xs" and "head c' = head c" "tail c' = tail c"
    and eq: "\<And>a. a \<in> set xs \<Longrightarrow>
       map_option (\<lambda>nd. (next_n nd, prev nd)) (heap c' a) = map_option (\<lambda>nd. (next_n nd, prev nd)) (heap c a)"
  shows "dll_inv c' xs"
proof -
  have k: "map_option next_n (heap c' a) = map_option next_n (heap c a)"
    and n: "map_option prev (heap c' a) = map_option prev (heap c a)" if "a \<in> set xs" for a
    using map_option_eq_fst [OF eq [OF that]] by simp_all
  have "path next_n (heap c') (head c) xs = path next_n (heap c) (head c) xs"
    by (rule path_cong) (use k in auto)
  moreover have "path prev (heap c') (tail c) (rev xs) = path prev (heap c) (tail c) (rev xs)"
    by (rule path_cong) (use n in auto)
  ultimately show ?thesis using assms by (simp add: dll_inv_def)
qed

lemma entries_frame:
  assumes "\<And>a. a \<in> set xs \<Longrightarrow>
       map_option (\<lambda>nd. (key nd, value_n nd)) (heap c' a) = map_option (\<lambda>nd. (key nd, value_n nd)) (heap c a)"
  shows "entries c' xs = entries c xs"
proof -
  have "kv_at c' a = kv_at c a" if "a \<in> set xs" for a
    using assms [OF that] by (cases "heap c a"; cases "heap c' a") (auto simp: kv_at_def)
  then show ?thesis by (simp add: entries_def)
qed

lemma same_data_heap:
  "same_data c c' \<Longrightarrow> 
     map_option (\<lambda>nd. (key nd, hnext nd)) (heap c' a) = map_option (\<lambda>nd. (key nd, hnext nd)) (heap c a) \<and>
     map_option (\<lambda>nd. (key nd, value_n nd)) (heap c' a) = map_option (\<lambda>nd. (key nd, value_n nd)) (heap c a) \<and>
     (heap c' a = None \<longleftrightarrow> heap c a = None)"
  unfolding same_data_def
  by (cases "heap c a"; cases "heap c' a") (auto dest!: spec [of _ a])

lemma same_links_heap:
  "same_links c c' \<Longrightarrow> 
     map_option (\<lambda>nd. (next_n nd, prev nd)) (heap c' a) = map_option (\<lambda>nd. (next_n nd, prev nd)) (heap c a) \<and>
     map_option (\<lambda>nd. (key nd, value_n nd)) (heap c' a) = map_option (\<lambda>nd. (key nd, value_n nd)) (heap c a) \<and>
     (heap c' a = None \<longleftrightarrow> heap c a = None)"
  unfolding same_links_def
  by (cases "heap c a"; cases "heap c' a") (auto dest!: spec [of _ a])

lemma same_data_dom: "same_data c c' \<Longrightarrow> dom (heap c') = dom (heap c)"
  using same_data_heap [of c c'] by (auto simp: dom_def)

lemma same_links_dom: "same_links c c' \<Longrightarrow> dom (heap c') = dom (heap c)"
  using same_links_heap [of c c'] by (auto simp: dom_def)

lemma same_data_bucket_inv: "same_data c c' \<Longrightarrow> bucket_inv c xs \<Longrightarrow> bucket_inv c' xs"
  by (rule bucket_inv_frame) (auto simp: same_data_heap, auto simp: same_data_def)

lemma same_data_entries: "same_data c c' \<Longrightarrow> entries c' xs = entries c xs"
  by (rule entries_frame) (simp add: same_data_heap)

lemma same_links_dll_inv: "same_links c c' \<Longrightarrow> dll_inv c xs \<Longrightarrow> dll_inv c' xs"
  by (rule dll_inv_frame) (auto simp: same_links_heap, auto simp: same_links_def)

lemma same_links_entries: "same_links c c' \<Longrightarrow> entries c' xs = entries c xs"
  by (rule entries_frame) (simp add: same_links_heap)

subsection \<open>Finding a key in its bucket\<close>

lemma find_key_unique:
  "distinct (map g xs) \<Longrightarrow> a \<in> set xs \<Longrightarrow> find (\<lambda>x. g x = g a) xs = Some a"
  by (induction xs) auto

lemma has_key_kv_at: "heap c a \<noteq> None \<Longrightarrow> has_key (heap c) k a \<longleftrightarrow> fst (kv_at c a) = k"
  by (auto simp: has_key_def kv_at_def split: option.splits)

lemma has_key_slot:
  "has_key (heap c) k a \<Longrightarrow> slot_of c a = bucket_index c k"
  by (auto simp: has_key_def slot_of_def split: option.splits)

lemma find_has_key_unique:
  assumes al: "set xs \<subseteq> dom (heap c)" and dk: "distinct (map fst (entries c xs))"
    and a: "a \<in> set xs" "has_key (heap c) k a"
  shows "find (has_key (heap c) k) xs = Some a"
proof -
  have "find (has_key (heap c) k) xs = find (\<lambda>x. (fst \<circ> kv_at c) x = (fst \<circ> kv_at c) a) xs"
  proof (rule find_cong [OF refl])
    fix x assume "x \<in> set xs"
    with al have "heap c x \<noteq> None" by auto
    moreover from a al have "fst (kv_at c a) = k" by (subst has_key_kv_at [symmetric]) auto
    ultimately show "has_key (heap c) k x = ((fst \<circ> kv_at c) x = (fst \<circ> kv_at c) a)"
      by (simp add: has_key_kv_at)
  qed
  also have "\<dots> = Some a"
    by (rule find_key_unique) (use dk a in \<open>simp_all add: entries_def comp_def\<close>)
  finally show ?thesis .
qed

lemma bucket_find:
  assumes inv: "bucket_inv c xs" and al: "set xs \<subseteq> dom (heap c)"
    and dk: "distinct (map fst (entries c xs))"
  shows "\<exists>i ys. bucket_index c k = Some i \<and> i < length (htable c) \<and>
           path hnext (heap c) (htable c ! i) ys \<and> distinct ys \<and>
           set ys = {a \<in> set xs. slot_of c a = Some i} \<and>
           find (has_key (heap c) k) ys = find (has_key (heap c) k) xs"
proof -
  from inv have hs: "hsize c \<noteq> 0" "length (htable c) = unat (hsize c)"
    by (simp_all add: bucket_inv_def)
  from bucket_index_less [OF hs(1), of k] hs(2) obtain i where
    i: "bucket_index c k = Some i" "i < length (htable c)" by auto
  from inv i(2) obtain ys where ys: "path hnext (heap c) (htable c ! i) ys" "distinct ys"
      "set ys = {a \<in> set xs. slot_of c a = Some i}"
    by (auto simp: bucket_inv_def)
  have "find (has_key (heap c) k) ys = find (has_key (heap c) k) xs"
  proof (cases "find (has_key (heap c) k) ys")
    case None
    have "\<not> has_key (heap c) k x" if "x \<in> set xs" for x
    proof
      assume hk: "has_key (heap c) k x"
      then have "slot_of c x = Some i" using i(1) by (simp add: has_key_slot)
      with that ys(3) have "x \<in> set ys" by simp
      with None hk show False by (simp add: find_None_iff)
    qed
    then have "find (has_key (heap c) k) xs = None" by (simp add: find_None_iff)
    with None show ?thesis by simp
  next
    case (Some a)
    then have "a \<in> set ys" "has_key (heap c) k a" by (auto simp: find_Some_iff)
    with ys(3) have "a \<in> set xs" "has_key (heap c) k a" by simp_all
    from find_has_key_unique [OF al dk this] Some show ?thesis by simp
  qed
  with i ys show ?thesis by blast
qed

lemma htable_load_Some: "i < length (htable c) \<Longrightarrow> htable_load c i = Some (htable c ! i)"
  by (simp add: htable_load_def)

lemma path_unlink:
  assumes d: "distinct ys" and p: "path hnext h p0 ys" and n: "n \<in> set ys" and nd: "h n = Some nd"
  shows "case succ_of (rev ys) n of
           None \<Rightarrow> p0 = Some n \<and> path hnext h (hnext nd) (remove1 n ys)
         | Some q \<Rightarrow> q \<in> set ys \<and> q \<noteq> n \<and>
             (\<exists>qd. h q = Some qd \<and> path hnext (h(q \<mapsto> qd\<lparr>hnext := hnext nd\<rparr>)) p0 (remove1 n ys))"
proof -
  from d have dr: "distinct (rev ys)" by simp
  from p d have links: "p0 = first ys" "\<And>a. a \<in> set ys \<Longrightarrow> \<exists>ad. h a = Some ad \<and> hnext ad = succ_of ys a"
    by (simp_all add: path_iff)
  from links(2) [OF n] nd have nn: "hnext nd = succ_of ys n" by simp
  show ?thesis
  proof (cases "succ_of (rev ys) n")
    case None
    with succ_of_None [OF dr, of n] n have "first ys = Some n" by simp
    then obtain ys' where ys': "ys = n # ys'" by (cases ys) auto
    with p nd d None links(1) show ?thesis by simp
  next
    case (Some q)
    from succ_of_in [OF Some] have q: "q \<in> set ys" by simp
    from Some succ_of_irrefl [OF dr, of n] have qn: "q \<noteq> n" by auto
    from links(2) [OF q] obtain qd where qd: "h q = Some qd" "hnext qd = succ_of ys q" by blast
    from Some succ_of_None [OF dr, of n] n have fn: "first ys \<noteq> Some n" by simp
    have pq: "(succ_of ys a = Some n) = (a = q)" for a
      using Some succ_of_rev [OF d, of n a] by auto
    let ?h = "h(q \<mapsto> qd\<lparr>hnext := hnext nd\<rparr>)"
    have "path hnext ?h p0 (remove1 n ys)"
      unfolding path_iff [OF distinct_remove1 [OF d]]
    proof (intro conjI ballI)
      show "p0 = first (remove1 n ys)" using links(1) fn by (simp add: first_remove1 [OF d])
    next
      fix a assume a: "a \<in> set (remove1 n ys)"
      with d have an: "a \<noteq> n" "a \<in> set ys" by auto
      from links(2) [OF an(2)] obtain ad where ad: "h a = Some ad" "hnext ad = succ_of ys a" by blast
      show "\<exists>nd. ?h a = Some nd \<and> hnext nd = succ_of (remove1 n ys) a"
        using an ad qd nn pq [of a] by (simp add: succ_of_remove1 [OF d])
    qed
    with Some q qn qd show ?thesis by simp
  qed
qed

subsection \<open>Unlinking a node from its chain\<close>

lemma slot_of_key_eq:
  "hsize c' = hsize c \<Longrightarrow> map_option key (heap c' a) = map_option key (heap c a) \<Longrightarrow>
   slot_of c' a = slot_of c a"
  by (cases "heap c a"; cases "heap c' a") (auto simp: slot_of_def bucket_index_def)

lemma bucket_inv_update:
  assumes inv: "bucket_inv c xs" and hs: "hsize c' = hsize c"
    and len: "length (htable c') = length (htable c)"
    and keys: "\<And>a. map_option key (heap c' a) = map_option key (heap c a)"
    and others: "\<And>j. j < length (htable c) \<Longrightarrow> j \<noteq> i \<Longrightarrow> htable c' ! j = htable c ! j"
    and heapj: "\<And>a. slot_of c a \<noteq> Some i \<Longrightarrow>
                  map_option hnext (heap c' a) = map_option hnext (heap c a)"
    and bi: "\<exists>ys. path hnext (heap c') (htable c' ! i) ys \<and> distinct ys \<and>
                  set ys = {a \<in> set xs'. slot_of c a = Some i}"
    and xs': "\<And>a. slot_of c a \<noteq> Some i \<Longrightarrow> a \<in> set xs' \<longleftrightarrow> a \<in> set xs"
  shows "bucket_inv c' xs'"
proof -
  have sl: "slot_of c' a = slot_of c a" for a
    by (rule slot_of_key_eq [OF hs keys])
  have "\<exists>ys. path hnext (heap c') (htable c' ! j) ys \<and> distinct ys \<and>
        set ys = {a \<in> set xs'. slot_of c' a = Some j}" if j: "j < length (htable c')" for j
  proof (cases "j = i")
    case True
    with bi sl show ?thesis by simp
  next
    case False
    from inv j len obtain ys where ys: "path hnext (heap c) (htable c ! j) ys" "distinct ys"
      "set ys = {a \<in> set xs. slot_of c a = Some j}"
      by (auto simp: bucket_inv_def)
    have "path hnext (heap c') (htable c ! j) ys = path hnext (heap c) (htable c ! j) ys"
      by (rule path_cong) (use ys(3) False heapj in auto)
    moreover have "{a \<in> set xs'. slot_of c' a = Some j} = {a \<in> set xs. slot_of c a = Some j}"
      using sl xs' False by auto
    ultimately show ?thesis using ys others [of j] j len False by auto
  qed
  with inv hs len show ?thesis by (simp add: bucket_inv_def)
qed

lemma set_hnext_Some:
  "heap c a = Some nd \<Longrightarrow> set_hnext c a p = Some (c\<lparr>heap := (heap c)(a \<mapsto> nd\<lparr>hnext := p\<rparr>)\<rparr>)"
  by (simp add: set_hnext_def)

lemma unlink_at_bucket_inv:
  assumes inv: "bucket_inv c xs" and d: "distinct xs" and n: "n \<in> set xs"
    and nd: "heap c n = Some nd" and i: "bucket_index c (key nd) = Some i"
    and ys: "path hnext (heap c) (htable c ! i) ys" "distinct ys"
            "set ys = {a \<in> set xs. slot_of c a = Some i}"
  shows "\<exists>c1. unlink_at c i n (succ_of (rev ys) n) = Some c1 \<and>
           bucket_inv c1 (remove1 n xs) \<and> same_links c c1"
proof -
  from inv have hs: "hsize c \<noteq> 0" "length (htable c) = unat (hsize c)"
    by (simp_all add: bucket_inv_def)
  from bucket_index_less [OF hs(1), of "key nd"] i hs(2) have il: "i < length (htable c)" by auto
  from nd i have sn: "slot_of c n = Some i" by (simp add: slot_of_def)
  with n ys(3) have nys: "n \<in> set ys" by simp
  have setr: "set (remove1 n ys) = {a \<in> set (remove1 n xs). slot_of c a = Some i}"
    using ys(2,3) d by auto
  have xs': "\<And>a. slot_of c a \<noteq> Some i \<Longrightarrow> a \<in> set (remove1 n xs) \<longleftrightarrow> a \<in> set xs"
    using sn d by auto
  note pu = path_unlink [OF ys(2) ys(1) nys nd]
  show ?thesis
  proof (cases "succ_of (rev ys) n")
    case None
    let ?c1 = "c\<lparr>htable := (htable c)[i := hnext nd]\<rparr>"
    from None pu have p: "path hnext (heap c) (hnext nd) (remove1 n ys)" by simp
    have 1: "unlink_at c i n (succ_of (rev ys) n) = Some ?c1"
      using None nd il by (simp add: unlink_at_def htable_store_def)
    have 2: "bucket_inv ?c1 (remove1 n xs)"
    proof (rule bucket_inv_update [OF inv, where i = i])
      show "\<exists>zs. path hnext (heap ?c1) (htable ?c1 ! i) zs \<and> distinct zs \<and>
                  set zs = {a \<in> set (remove1 n xs). slot_of c a = Some i}"
        using p il ys(2) setr by (intro exI [of _ "remove1 n ys"]) simp
    qed (use xs' in simp_all)
    have 3: "same_links c ?c1" by (simp add: same_links_def)
    from 1 2 3 show ?thesis by blast
  next
    case (Some q)
    with pu obtain qd where q: "q \<in> set ys" "q \<noteq> n" "heap c q = Some qd"
        "path hnext ((heap c)(q \<mapsto> qd\<lparr>hnext := hnext nd\<rparr>)) (htable c ! i) (remove1 n ys)"
      by auto
    let ?c1 = "c\<lparr>heap := (heap c)(q \<mapsto> qd\<lparr>hnext := hnext nd\<rparr>)\<rparr>"
    from q(1) ys(3) have sq: "slot_of c q = Some i" by simp
    have 1: "unlink_at c i n (succ_of (rev ys) n) = Some ?c1"
      using Some nd q(3) by (simp add: unlink_at_def set_hnext_Some)
    have 2: "bucket_inv ?c1 (remove1 n xs)"
    proof (rule bucket_inv_update [OF inv, where i = i])
      show "\<exists>zs. path hnext (heap ?c1) (htable ?c1 ! i) zs \<and> distinct zs \<and>
                  set zs = {a \<in> set (remove1 n xs). slot_of c a = Some i}"
        using q(4) ys(2) setr by (intro exI [of _ "remove1 n ys"]) simp
    next
      fix a show "map_option key (heap ?c1 a) = map_option key (heap c a)"
        using q(3) by simp
    next
      fix a assume "slot_of c a \<noteq> Some i"
      with sq show "map_option hnext (heap ?c1 a) = map_option hnext (heap c a)" by auto
    qed (use xs' in simp_all)
    have 3: "same_links c ?c1" using q(3) by (simp add: same_links_def)
    from 1 2 3 show ?thesis by blast
  qed
qed

subsection \<open>The hash table functions\<close>

lemma same_links_refl [simp]: "same_links c c"
  by (simp add: same_links_def)

lemma same_links_trans: "same_links c c1 \<Longrightarrow> same_links c1 c2 \<Longrightarrow> same_links c c2"
  by (simp add: same_links_def)

lemma same_data_refl [simp]: "same_data c c"
  by (simp add: same_data_def)

lemma same_data_trans: "same_data c c1 \<Longrightarrow> same_data c1 c2 \<Longrightarrow> same_data c c2"
  by (simp add: same_data_def)

lemma bucket_inv_set_cong: "set xs = set xs' \<Longrightarrow> bucket_inv c xs = bucket_inv c xs'"
  by (simp add: bucket_inv_def)

lemma htable_remove_inv:
  assumes inv: "bucket_inv c xs" and d: "distinct xs" and n: "n \<in> set xs"
    and nd: "heap c n = Some nd"
  shows "\<exists>c'. htable_remove c n = Some c' \<and> bucket_inv c' (remove1 n xs) \<and> same_links c c'"
proof -
  from inv have hs: "hsize c \<noteq> 0" "length (htable c) = unat (hsize c)"
    by (simp_all add: bucket_inv_def)
  from bucket_index_less [OF hs(1), of "key nd"] hs(2) obtain i where
    i: "bucket_index c (key nd) = Some i" "i < length (htable c)" by auto
  from inv i(2) obtain ys where ys: "path hnext (heap c) (htable c ! i) ys" "distinct ys"
      "set ys = {a \<in> set xs. slot_of c a = Some i}"
    by (auto simp: bucket_inv_def)
  from nd i have sn: "slot_of c n = Some i" by (simp add: slot_of_def)
  with n ys(3) have nys: "n \<in> set ys" by simp
  from ys(2) have dr: "distinct (rev ys)" by simp
  have q: "(if first ys = Some n then None else succ_of (rev ys) n) = succ_of (rev ys) n"
    using succ_of_None [OF dr, of n] nys by auto
  from unlink_at_bucket_inv [OF inv d n nd i(1) ys] obtain c1 where
    c1: "unlink_at c i n (succ_of (rev ys) n) = Some c1" "bucket_inv c1 (remove1 n xs)"
        "same_links c c1"
    by blast
  from same_links_heap [OF c1(3), of n] nd obtain nd1 where nd1: "heap c1 n = Some nd1"
    by (cases "heap c1 n") auto
  let ?c2 = "c1\<lparr>heap := (heap c1)(n \<mapsto> nd1\<lparr>hnext := None\<rparr>)\<rparr>"
  have 1: "htable_remove c n = Some ?c2"
    using nd i c1(1) nd1 q
    by (simp add: htable_remove_def htable_load_Some htable_remove_loop_chain [OF ys(1,2) nys]
        set_hnext_Some)
  have 2: "bucket_inv ?c2 (remove1 n xs)"
    by (rule bucket_inv_frame [OF c1(2)]) (use d in auto)
  have "same_links c1 ?c2" using nd1 by (simp add: same_links_def)
  with c1(3) have 3: "same_links c ?c2" by (rule same_links_trans)
  from 1 2 3 show ?thesis by blast
qed

lemma htable_insert_inv:
  assumes inv: "bucket_inv c xs" and n: "n \<notin> set xs" and nd: "heap c n = Some nd"
  shows "\<exists>c'. htable_insert c n = Some c' \<and> bucket_inv c' (n # xs) \<and> same_links c c'"
proof -
  from inv have hs: "hsize c \<noteq> 0" "length (htable c) = unat (hsize c)"
    by (simp_all add: bucket_inv_def)
  from bucket_index_less [OF hs(1), of "key nd"] hs(2) obtain i where
    i: "bucket_index c (key nd) = Some i" "i < length (htable c)" by auto
  from inv i(2) obtain ys where ys: "path hnext (heap c) (htable c ! i) ys" "distinct ys"
      "set ys = {a \<in> set xs. slot_of c a = Some i}"
    by (auto simp: bucket_inv_def)
  from nd i have sn: "slot_of c n = Some i" by (simp add: slot_of_def)
  from n ys(3) have nys: "n \<notin> set ys" by simp
  let ?c' = "c\<lparr>heap := (heap c)(n \<mapsto> nd\<lparr>hnext := htable c ! i\<rparr>), htable := (htable c)[i := Some n]\<rparr>"
  have 1: "htable_insert c n = Some ?c'"
    using nd i by (simp add: htable_insert_def htable_load_Some set_hnext_Some htable_store_def)
  have p: "path hnext (heap ?c') (htable c ! i) ys = path hnext (heap c) (htable c ! i) ys"
    by (rule path_cong) (use nys in auto)
  have 2: "bucket_inv ?c' (n # xs)"
  proof (rule bucket_inv_update [OF inv, where i = i])
    show "\<exists>zs. path hnext (heap ?c') (htable ?c' ! i) zs \<and> distinct zs \<and>
                  set zs = {a \<in> set (n # xs). slot_of c a = Some i}"
      using p ys nys sn i(2) by (intro exI [of _ "n # ys"]) auto
  next
    fix a show "map_option key (heap ?c' a) = map_option key (heap c a)"
      using nd by simp
  next
    fix a assume "slot_of c a \<noteq> Some i"
    with sn show "map_option hnext (heap ?c' a) = map_option hnext (heap c a)" by auto
  next
    fix a assume "slot_of c a \<noteq> Some i"
    with sn show "a \<in> set (n # xs) \<longleftrightarrow> a \<in> set xs" by auto
  qed simp_all
  have 3: "same_links c ?c'" using nd by (simp add: same_links_def)
  from 1 2 3 show ?thesis by blast
qed

lemma remove1_last: "distinct xs \<Longrightarrow> xs \<noteq> [] \<Longrightarrow> remove1 (last xs) xs = butlast xs"
  by (induction xs) auto

lemma first_rev_last: "xs \<noteq> [] \<Longrightarrow> first (rev xs) = Some (last xs)"
  by (cases xs rule: rev_cases) simp_all

lemma map_remove1_filter:
  assumes gf: "\<And>x. g' (f x) = g x"
  shows "distinct (map g xs) \<Longrightarrow> a \<in> set xs \<Longrightarrow>
   map f (remove1 a xs) = filter (\<lambda>e. g' e \<noteq> g a) (map f xs)"
proof (induction xs)
  case Nil
  then show ?case by simp
next
  case (Cons x xs)
  show ?case
  proof (cases "x = a")
    case True
    with Cons.prems have "\<forall>y\<in>set xs. g y \<noteq> g a" by (auto simp: image_iff)
    then have "filter (\<lambda>e. g' e \<noteq> g a) (map f xs) = map f xs"
      by (simp add: filter_id_conv gf)
    with True show ?thesis by (simp add: gf)
  next
    case False
    with Cons.prems have "a \<in> set xs" "g x \<noteq> g a" "distinct (map g xs)" by (auto simp: image_iff)
    with Cons.IH False show ?thesis by (simp add: gf)
  qed
qed

lemma cap_not_max:
  fixes cap :: size_t
  assumes "unat (cap * 2 + 1) * 8 < 2 ^ 64"
  shows "cap \<noteq> - 1"
proof
  assume c: "cap = - 1"
  define u where "u = unat (cap * 2 + 1)"
  have "cap * 2 + 1 = - 1" unfolding c by simp
  then have "u = unat (- 1 :: size_t)" by (simp only: u_def)
  also have "\<dots> = 2 ^ 64 - 1"
    by (simp add: unsigned_minus_1_eq_mask mask_eq_exp_minus_1)
  finally have "u = 2 ^ 64 - 1" .
  moreover from assms have "u * 8 < 2 ^ 64" by (simp only: u_def)
  ultimately show False by simp
qed

lemma unat_succ:
  fixes s :: size_t
  assumes "s \<le> cap" "cap \<noteq> - 1"
  shows "unat (s + 1) = unat s + 1"
proof -
  have "s \<noteq> - 1"
  proof
    assume "s = - 1"
    with assms(1) have "cap = - 1" by (simp add: word_order.extremum_unique)
    with assms(2) show False by simp
  qed
  then have "1 + s \<noteq> 0" by (simp add: add_eq_0_iff)
  from unatSuc [OF this] show ?thesis by (simp add: add.commute)
qed

subsection \<open>Lookup and promotion\<close>

lemma bucket_index_lock [simp]: "bucket_index (c\<lparr>lock := l\<rparr>) k = bucket_index c k"
  by (simp add: bucket_index_def)

lemma slot_of_lock [simp]: "slot_of (c\<lparr>lock := l\<rparr>) a = slot_of c a"
  by (simp add: slot_of_def split: option.splits)

lemma kv_at_lock [simp]: "kv_at (c\<lparr>lock := l\<rparr>) = kv_at c"
  by (rule ext) (simp add: kv_at_def)

lemma entries_lock [simp]: "entries (c\<lparr>lock := l\<rparr>) xs = entries c xs"
  by (simp add: entries_def)

lemma sizes_inv_cong:
  "capacity c' = capacity c \<Longrightarrow> hsize c' = hsize c \<Longrightarrow> sizes_inv c' = sizes_inv c"
  by (simp add: sizes_inv_def)

lemma cache_inv_lock [simp]: "cache_inv (c\<lparr>lock := l\<rparr>) xs = cache_inv c xs"
  by (simp add: cache_inv_def dll_inv_def bucket_inv_def sizes_inv_def)

lemma bucket_index_strings [simp]: "bucket_index (c\<lparr>strings := s\<rparr>) k = bucket_index c k"
  by (simp add: bucket_index_def)

lemma slot_of_strings [simp]: "slot_of (c\<lparr>strings := s\<rparr>) a = slot_of c a"
  by (simp add: slot_of_def split: option.splits)

lemma kv_at_strings [simp]: "kv_at (c\<lparr>strings := s\<rparr>) = kv_at c"
  by (rule ext) (simp add: kv_at_def)

lemma entries_strings [simp]: "entries (c\<lparr>strings := s\<rparr>) xs = entries c xs"
  by (simp add: entries_def)

lemma cache_inv_strings [simp]: "cache_inv (c\<lparr>strings := s\<rparr>) xs = cache_inv c xs"
  by (simp add: cache_inv_def dll_inv_def bucket_inv_def sizes_inv_def)

lemma cache_inv_alloc: "cache_inv c xs \<Longrightarrow> a \<in> set xs \<Longrightarrow> \<exists>nd. heap c a = Some nd"
  by (auto simp: cache_inv_def)

lemma cache_inv_scan:
  assumes inv: "cache_inv c xs"
  shows "\<exists>i. bucket_index c k = Some i \<and> htable_load c i = Some (htable c ! i) \<and>
           bucket_scan (heap c) k (htable c ! i) = Some (find (has_key (heap c) k) xs)"
proof -
  from inv have b: "bucket_inv c xs" and al: "set xs \<subseteq> dom (heap c)"
    and dk: "distinct (map fst (entries c xs))"
    by (simp_all add: cache_inv_def)
  from bucket_find [OF b al dk, of k] obtain i ys where
    i: "bucket_index c k = Some i" "i < length (htable c)"
       "path hnext (heap c) (htable c ! i) ys"
       "find (has_key (heap c) k) ys = find (has_key (heap c) k) xs"
    by blast
  from bucket_scan_chain [OF i(3), of k] i show ?thesis
    by (simp add: htable_load_Some)
qed

lemma find_has_key_None:
  assumes inv: "cache_inv c xs"
  shows "find (has_key (heap c) k) xs = None \<longleftrightarrow> k \<notin> fst ` set (entries c xs)"
proof -
  have "has_key (heap c) k a \<longleftrightarrow> fst (kv_at c a) = k" if "a \<in> set xs" for a
    using cache_inv_alloc [OF inv that] by (auto simp: has_key_kv_at)
  then show ?thesis
    by (auto simp: find_None_iff entries_def image_iff)
qed

lemma find_has_key_Some:
  assumes inv: "cache_inv c xs" and f: "find (has_key (heap c) k) xs = Some a"
  shows "a \<in> set xs \<and> (\<exists>nd. heap c a = Some nd \<and> key nd = k \<and>
           map_of (entries c xs) k = Some (value_n nd))"
proof -
  from f have a: "a \<in> set xs" "has_key (heap c) k a" by (auto simp: find_Some_iff)
  then obtain nd where nd: "heap c a = Some nd" "key nd = k"
    by (auto simp: has_key_def split: option.splits)
  from inv have dk: "distinct (map fst (entries c xs))" by (simp add: cache_inv_def)
  from a(1) nd have "(k, value_n nd) \<in> set (entries c xs)"
    by (force simp: entries_def kv_at_def image_iff)
  with dk have "map_of (entries c xs) k = Some (value_n nd)" by simp
  with a(1) nd show ?thesis by simp
qed

lemma distinct_map_promote:
  assumes "distinct (map f xs)" "a \<in> set xs"
  shows "distinct (map f (a # remove1 a xs))"
proof -
  from assms have d: "distinct xs" and i: "inj_on f (set xs)" by (simp_all add: distinct_map)
  from assms(2) have s: "set (a # remove1 a xs) = set xs" by (auto simp: d)
  have "distinct (a # remove1 a xs)" using d by simp
  with i s show ?thesis unfolding distinct_map by simp
qed

lemma promote_inv:
  assumes inv: "cache_inv c xs" and a: "a \<in> set xs"
  shows "\<exists>c1 c2. dll_remove c a = Some c1 \<and> dll_push_head c1 a = Some c2 \<and>
           cache_inv c2 (a # remove1 a xs) \<and> same_data c c2"
proof -
  from inv have dll: "dll_inv c xs" and d: "distinct xs" by (simp_all add: cache_inv_def dll_inv_def)
  from dll_remove_inv [OF dll a] obtain c1 nd1 where
    c1: "dll_remove c a = Some c1" "dll_inv c1 (remove1 a xs)" "same_data c c1"
        "heap c1 a = Some nd1"
    by blast
  from d have "a \<notin> set (remove1 a xs)" by simp
  from dll_push_head_inv [OF c1(2) this c1(4)] obtain c2 where
    c2: "dll_push_head c1 a = Some c2" "dll_inv c2 (a # remove1 a xs)" "same_data c1 c2"
    by blast
  from c1(3) c2(3) have sd: "same_data c c2" by (rule same_data_trans)
  from a d have s: "set (a # remove1 a xs) = set xs" by auto
  have "bucket_inv c2 (a # remove1 a xs)"
    using same_data_bucket_inv [OF sd] inv bucket_inv_set_cong [OF s] by (simp add: cache_inv_def)
  moreover have "dom (heap c2) = set (a # remove1 a xs)"
    using same_data_dom [OF sd] inv s by (simp add: cache_inv_def)
  moreover have "distinct (map fst (entries c2 (a # remove1 a xs)))"
  proof -
    from inv have "distinct (map (fst \<circ> kv_at c) xs)" by (simp add: cache_inv_def entries_def)
    from distinct_map_promote [OF this a]
    have "distinct (map fst (entries c (a # remove1 a xs)))" by (simp add: entries_def)
    then show ?thesis by (simp only: same_data_entries [OF sd])
  qed
  moreover have "length (a # remove1 a xs) = length xs"
    using a by (simp add: length_remove1) (cases xs; simp)
  moreover have "sizes_inv c2 = sizes_inv c"
    by (rule sizes_inv_cong) (use sd in \<open>simp_all add: same_data_def\<close>)
  ultimately have "cache_inv c2 (a # remove1 a xs)"
    using inv c2(2) sd by (simp add: cache_inv_def same_data_def)
  with c1(1) c2(1) sd show ?thesis by blast
qed

lemma promote_entries:
  assumes inv: "cache_inv c xs" and a: "a \<in> set xs" and nd: "heap c a = Some nd"
  shows "entries c (a # remove1 a xs) = spec_touch (key nd) (value_n nd) (entries c xs)"
proof -
  from inv have dk: "distinct (map (fst \<circ> kv_at c) xs)" by (simp add: cache_inv_def entries_def)
  have "map (kv_at c) (remove1 a xs) =
        filter (\<lambda>e. fst e \<noteq> (fst \<circ> kv_at c) a) (map (kv_at c) xs)"
    by (rule map_remove1_filter [OF _ dk a]) simp
  with nd show ?thesis by (simp add: entries_def spec_touch_def kv_at_def)
qed

lemma set_value_inv:
  assumes inv: "cache_inv c xs" and a: "a \<in> set xs" and nd: "heap c a = Some nd"
  shows "\<exists>c1. set_value c a p v = Some c1 \<and> cache_inv c1 xs \<and>
           heap c1 = (heap c)(a \<mapsto> nd\<lparr>value_n := v, value_p := p\<rparr>) \<and>
           capacity c1 = capacity c \<and> hsize c1 = hsize c \<and> lock c1 = lock c \<and>
           size_c c1 = size_c c \<and> length (htable c1) = length (htable c) \<and>
           strings c1 = strings c"
proof -
  let ?c1 = "c\<lparr>heap := (heap c)(a \<mapsto> nd\<lparr>value_n := v, value_p := p\<rparr>)\<rparr>"
  have 1: "set_value c a p v = Some ?c1" using nd by (simp add: set_value_def)
  have "dll_inv ?c1 xs"
    by (rule dll_inv_frame [of c]) (use inv nd in \<open>auto simp: cache_inv_def\<close>)
  moreover have "bucket_inv ?c1 xs"
    by (rule bucket_inv_frame [of c]) (use inv nd in \<open>auto simp: cache_inv_def\<close>)
  moreover have "dom (heap ?c1) = set xs" using inv a by (auto simp: cache_inv_def)
  moreover have "map fst (entries ?c1 xs) = map fst (entries c xs)"
    using nd by (auto simp: entries_def kv_at_def)
  moreover have "sizes_inv ?c1 = sizes_inv c" by (rule sizes_inv_cong) simp_all
  ultimately have "cache_inv ?c1 xs" using inv by (simp add: cache_inv_def)
  with 1 show ?thesis by simp
qed

subsection \<open>The storage of the strings\<close>

lemma same_data_blocks: "same_data c c' \<Longrightarrow> blocks_at c' a = blocks_at c a"
  unfolding same_data_def blocks_at_def
  by (cases "heap c a"; cases "heap c' a") (auto dest!: spec [of _ a])

lemma owned_remove1:
  "distinct (owned c xs) \<Longrightarrow> a \<in> set xs \<Longrightarrow>
   distinct (blocks_at c a @ owned c (remove1 a xs)) \<and>
   set (blocks_at c a @ owned c (remove1 a xs)) = set (owned c xs)"
proof (induction xs)
  case Nil
  then show ?case by simp
next
  case (Cons x xs)
  show ?case
  proof (cases "x = a")
    case True
    with Cons.prems show ?thesis by (simp add: owned_def)
  next
    case False
    with Cons.prems have a: "a \<in> set xs" and d: "distinct (owned c xs)"
      and dx: "distinct (blocks_at c x)" "set (blocks_at c x) \<inter> set (owned c xs) = {}"
      by (auto simp: owned_def)
    from Cons.IH [OF d a] have
      ih: "distinct (blocks_at c a @ owned c (remove1 a xs))"
          "set (blocks_at c a @ owned c (remove1 a xs)) = set (owned c xs)"
      by simp_all
    have o: "owned c (remove1 a (x # xs)) = blocks_at c x @ owned c (remove1 a xs)"
      using False by (simp add: owned_def)
    from ih(2) dx(2) have
      dis: "set (blocks_at c x) \<inter> (set (blocks_at c a) \<union> set (owned c (remove1 a xs))) = {}"
      by auto
    have 1: "distinct (blocks_at c a @ owned c (remove1 a (x # xs)))"
      unfolding o using ih(1) dx(1) dis by auto
    have 2: "set (blocks_at c a @ owned c (remove1 a (x # xs))) = set (owned c (x # xs))"
      unfolding o using ih(2) by (auto simp: owned_def)
    from 1 2 show ?thesis by blast
  qed
qed

lemma replace_block:
  "v \<noteq> k \<Longrightarrow> v \<notin> S \<Longrightarrow> n \<noteq> v \<Longrightarrow>
   insert n (insert k (insert v S)) - {v} = insert k (insert n S)"
  by auto

lemma owned_cong:
  "(\<And>b. b \<in> set xs \<Longrightarrow> blocks_at c' b = blocks_at c b) \<Longrightarrow> owned c' xs = owned c xs"
  by (simp add: owned_def cong: map_cong)

lemma same_links_blocks: "same_links c c' \<Longrightarrow> blocks_at c' a = blocks_at c a"
  unfolding same_links_def blocks_at_def
  by (cases "heap c a"; cases "heap c' a") (auto dest!: spec [of _ a])

lemma blocks_at_lock [simp]: "blocks_at (c\<lparr>lock := l\<rparr>) = blocks_at c"
  by (rule ext) (simp add: blocks_at_def)

lemma storage_inv_lock [simp]: "storage_inv (c\<lparr>lock := l\<rparr>) xs = storage_inv c xs"
  by (simp add: storage_inv_def owned_def)


lemma blocks_at_size [simp]: "blocks_at (c\<lparr>size_c := n\<rparr>) = blocks_at c"
  by (rule ext) (simp add: blocks_at_def)

lemma rwlock_storage [simp]:
  "strings (rwlock_rdlock c) = strings c" "strings (rwlock_wrlock c) = strings c"
  "strings (rwlock_unlock c) = strings c"
  "blocks_at (rwlock_rdlock c) = blocks_at c" "blocks_at (rwlock_wrlock c) = blocks_at c"
  "blocks_at (rwlock_unlock c) = blocks_at c"
  "storage_inv (rwlock_rdlock c) xs = storage_inv c xs"
  "storage_inv (rwlock_wrlock c) xs = storage_inv c xs"
  "storage_inv (rwlock_unlock c) xs = storage_inv c xs"
  by (simp_all add: rwlock_rdlock_def rwlock_wrlock_def rwlock_unlock_def)

text \<open>
  Replacing the value of the node at \<open>a\<close>: the block of the old value is freed and the
  block \<open>nv\<close>, which was not allocated, becomes the value.
\<close>

lemma storage_inv_replace:
  assumes si: "storage_inv c xs" and a: "a \<in> set xs" and dx: "distinct xs"
    and nd: "heap c a = Some nd" and fr: "nv \<notin> strings c"
    and s: "strings c' = insert nv (strings c) - {value_p nd}"
    and ba: "blocks_at c' a = [key_p nd, nv]"
    and b: "\<And>b. b \<noteq> a \<Longrightarrow> blocks_at c' b = blocks_at c b"
  shows "value_p nd \<in> strings c \<and> value_p nd \<notin> strings c' \<and> nv \<in> strings c' \<and>
         strings c' - {nv} = strings c - {value_p nd} \<and>
         storage_inv c' (a # remove1 a xs)"
proof -
  from si have do: "distinct (owned c xs)" and so: "strings c = set (owned c xs)"
    by (simp_all add: storage_inv_def)
  from owned_remove1 [OF do a] nd have
    o: "distinct ([key_p nd, value_p nd] @ owned c (remove1 a xs))"
       "set ([key_p nd, value_p nd] @ owned c (remove1 a xs)) = set (owned c xs)"
    by (simp_all add: blocks_at_def)
  from dx have an: "a \<notin> set (remove1 a xs)" by simp
  have "blocks_at c' x = blocks_at c x" if "x \<in> set (remove1 a xs)" for x
  proof -
    from that an have "x \<noteq> a" by auto
    then show ?thesis by (rule b)
  qed
  then have "owned c' (remove1 a xs) = owned c (remove1 a xs)" by (rule owned_cong)
  with ba have o': "owned c' (a # remove1 a xs) = [key_p nd, nv] @ owned c (remove1 a xs)"
    by (simp add: owned_def)
  from o(2) so have sc: "strings c = insert (key_p nd) (insert (value_p nd)
      (set (owned c (remove1 a xs))))"
    by simp
  from sc have 1: "value_p nd \<in> strings c" by simp
  with fr have ne: "nv \<noteq> value_p nd" by auto
  from s have 2: "value_p nd \<notin> strings c'" by simp
  from s ne have 3: "nv \<in> strings c'" by simp
  from s fr ne have 4: "strings c' - {nv} = strings c - {value_p nd}" by auto
  from fr sc have nn: "nv \<noteq> key_p nd" "nv \<notin> set (owned c (remove1 a xs))"
    by auto
  from o(1) nn have 5: "distinct (owned c' (a # remove1 a xs))" unfolding o' by simp
  from o(1) have "value_p nd \<noteq> key_p nd" "value_p nd \<notin> set (owned c (remove1 a xs))"
    by auto
  then have "insert nv (strings c) - {value_p nd} =
      insert (key_p nd) (insert nv (set (owned c (remove1 a xs))))"
    unfolding sc using ne by (rule replace_block)
  with s have 6: "strings c' = set (owned c' (a # remove1 a xs))" unfolding o' by simp
  from 1 2 3 4 5 6 show ?thesis by (simp add: storage_inv_def)
qed

lemma storage_inv_promote:
  assumes si: "storage_inv c xs" and a: "a \<in> set xs" and s: "strings c' = strings c"
    and b: "\<And>b. b \<in> set xs \<Longrightarrow> blocks_at c' b = blocks_at c b"
  shows "storage_inv c' (a # remove1 a xs)"
proof -
  from si have d: "distinct (owned c xs)" and so: "strings c = set (owned c xs)"
    by (simp_all add: storage_inv_def)
  have "set (a # remove1 a xs) \<subseteq> set xs" using a set_remove1_subset [of a xs] by auto
  then have "owned c' (a # remove1 a xs) = owned c (a # remove1 a xs)"
    by (intro owned_cong b) auto
  with owned_remove1 [OF d a] s so show ?thesis
    by (simp add: storage_inv_def owned_def)
qed

lemma storage_inv_remove:
  assumes si: "storage_inv c xs" and a: "a \<in> set xs"
    and s: "strings c' = strings c - set (blocks_at c a)"
    and b: "\<And>b. b \<in> set (remove1 a xs) \<Longrightarrow> blocks_at c' b = blocks_at c b"
  shows "storage_inv c' (remove1 a xs)"
proof -
  from si have d: "distinct (owned c xs)" and so: "strings c = set (owned c xs)"
    by (simp_all add: storage_inv_def)
  have o: "owned c' (remove1 a xs) = owned c (remove1 a xs)" by (intro owned_cong b)
  from owned_remove1 [OF d a] have
    1: "distinct (owned c (remove1 a xs))"
       "set (blocks_at c a) \<inter> set (owned c (remove1 a xs)) = {}"
       "set (blocks_at c a) \<union> set (owned c (remove1 a xs)) = set (owned c xs)"
    by auto
  from 1(2,3) so s have "strings c' = set (owned c (remove1 a xs))" by auto
  with 1(1) o show ?thesis by (simp add: storage_inv_def)
qed

lemma storage_inv_insert:
  assumes si: "storage_inv c xs"
    and f: "kb \<notin> strings c" "vb \<notin> strings c" "kb \<noteq> vb"
    and s: "strings c' = insert vb (insert kb (strings c))"
    and n: "blocks_at c' n = [kb, vb]"
    and b: "\<And>b. b \<in> set xs \<Longrightarrow> blocks_at c' b = blocks_at c b"
  shows "storage_inv c' (n # xs)"
proof -
  from si have d: "distinct (owned c xs)" and so: "strings c = set (owned c xs)"
    by (simp_all add: storage_inv_def)
  have o: "owned c' xs = owned c xs" by (intro owned_cong b)
  then have "owned c' (n # xs) = [kb, vb] @ owned c xs" using n by (simp add: owned_def)
  with d so f s show ?thesis by (auto simp: storage_inv_def)
qed

subsection \<open>\<open>cache_get\<close>\<close>

lemma rwlock_fields [simp]:
  "heap (rwlock_rdlock c) = heap c" "heap (rwlock_wrlock c) = heap c" "heap (rwlock_unlock c) = heap c"
  "htable (rwlock_rdlock c) = htable c" "htable (rwlock_wrlock c) = htable c" "htable (rwlock_unlock c) = htable c"
  "hsize (rwlock_rdlock c) = hsize c" "hsize (rwlock_wrlock c) = hsize c" "hsize (rwlock_unlock c) = hsize c"
  "capacity (rwlock_rdlock c) = capacity c" "capacity (rwlock_wrlock c) = capacity c" "capacity (rwlock_unlock c) = capacity c"
  "size_c (rwlock_rdlock c) = size_c c" "size_c (rwlock_wrlock c) = size_c c" "size_c (rwlock_unlock c) = size_c c"
  "head (rwlock_rdlock c) = head c" "head (rwlock_wrlock c) = head c" "head (rwlock_unlock c) = head c"
  "tail (rwlock_rdlock c) = tail c" "tail (rwlock_wrlock c) = tail c" "tail (rwlock_unlock c) = tail c"
  "lock (rwlock_rdlock c) = lock c @ [RdLock]" "lock (rwlock_wrlock c) = lock c @ [WrLock]"
  "lock (rwlock_unlock c) = lock c @ [Unlock]"
  by (simp_all add: rwlock_rdlock_def rwlock_wrlock_def rwlock_unlock_def)

lemma rwlock_inv [simp]:
  "cache_inv (rwlock_rdlock c) xs = cache_inv c xs"
  "cache_inv (rwlock_wrlock c) xs = cache_inv c xs"
  "cache_inv (rwlock_unlock c) xs = cache_inv c xs"
  "entries (rwlock_rdlock c) xs = entries c xs"
  "entries (rwlock_wrlock c) xs = entries c xs"
  "entries (rwlock_unlock c) xs = entries c xs"
  by (simp_all add: rwlock_rdlock_def rwlock_wrlock_def rwlock_unlock_def)

lemma same_data_value:
  "same_data c c' \<Longrightarrow> heap c a = Some nd \<Longrightarrow>
   \<exists>nd'. heap c' a = Some nd' \<and> value_n nd' = value_n nd \<and> key nd' = key nd"
  unfolding same_data_def by (cases "heap c' a") (auto dest!: spec [of _ a])

lemma map_of_entries_None:
  "map_of (entries c xs) k = None \<longleftrightarrow> k \<notin> fst ` set (entries c xs)"
  by (simp add: map_of_eq_None_iff)

lemma cache_get_miss:
  assumes inv: "cache_inv c xs" and k: "map_of (entries c xs) k = None"
  shows "cache_get ok (Some c) (Some k) =
           Some (None, Some (rwlock_unlock (rwlock_rdlock c)))"
proof -
  let ?cr = "rwlock_rdlock c"
  have invr: "cache_inv ?cr xs" using inv by simp
  from k have "find (has_key (heap c) k) xs = None"
    using find_has_key_None [OF inv, of k] by (simp add: map_of_entries_None)
  with cache_inv_scan [OF invr, of k] show ?thesis
    by (auto simp: cache_get_def Let_def)
qed

lemma cache_get_hit:
  assumes inv: "cache_inv c xs" and k: "map_of (entries c xs) k = Some v"
  shows "\<exists>c' a. cache_get ok (Some c) (Some k) = Some (strdup ok v, Some c') \<and>
           a \<in> set xs \<and> cache_inv c' (a # remove1 a xs) \<and>
           entries c' (a # remove1 a xs) = spec_touch k v (entries c xs) \<and>
           capacity c' = capacity c \<and> hsize c' = hsize c \<and> size_c c' = size_c c \<and>
           htable c' = htable c \<and>
           lock c' = lock c @ [RdLock, Unlock, WrLock, Unlock] \<and>
           (storage_inv c xs \<longrightarrow> storage_inv c' (a # remove1 a xs))"
proof -
  let ?cr = "rwlock_rdlock c"
  let ?cw = "rwlock_wrlock (rwlock_unlock ?cr)"
  have invr: "cache_inv ?cr xs" and invw: "cache_inv ?cw xs" using inv by simp_all
  from k have "find (has_key (heap c) k) xs \<noteq> None"
    using find_has_key_None [OF inv, of k] by (auto simp: map_of_entries_None [symmetric])
  then obtain a where f: "find (has_key (heap c) k) xs = Some a" by auto
  from find_has_key_Some [OF inv f] k obtain nd where
    a: "a \<in> set xs" and nd: "heap c a = Some nd" "key nd = k" "value_n nd = v"
    by auto
  from promote_inv [OF invw a] obtain c1 c2 where
    p: "dll_remove ?cw a = Some c1" "dll_push_head c1 a = Some c2"
       "cache_inv c2 (a # remove1 a xs)" "same_data ?cw c2"
    by blast
  from same_data_value [OF p(4), of a nd] nd obtain nd2 where
    nd2: "heap c2 a = Some nd2" "value_n nd2 = v" by auto
  from cache_inv_scan [OF invr, of k] cache_inv_scan [OF invw, of k] f p(1,2) nd2
  have 1: "cache_get ok (Some c) (Some k) = Some (strdup ok v, Some (rwlock_unlock c2))"
    by (auto simp: cache_get_def Let_def)
  have "entries c2 (a # remove1 a xs) = entries ?cw (a # remove1 a xs)"
    by (rule same_data_entries [OF p(4)])
  also have "\<dots> = spec_touch k v (entries c xs)"
    using promote_entries [OF inv a nd(1)] nd by simp
  finally have 2: "entries (rwlock_unlock c2) (a # remove1 a xs) = spec_touch k v (entries c xs)"
    by simp
  from p(4) have 3: "capacity c2 = capacity c" "hsize c2 = hsize c" "size_c c2 = size_c c"
    "htable c2 = htable c" "lock c2 = lock c @ [RdLock, Unlock, WrLock]"
    by (simp_all add: same_data_def)
  have 4: "storage_inv (rwlock_unlock c2) (a # remove1 a xs)" if si: "storage_inv c xs"
  proof -
    from p(4) have "strings c2 = strings c" by (simp add: same_data_def)
    moreover have "blocks_at c2 b = blocks_at c b" for b
      using same_data_blocks [OF p(4), of b] by simp
    ultimately have "storage_inv c2 (a # remove1 a xs)"
      by (intro storage_inv_promote [OF si a]) simp_all
    then show ?thesis by simp
  qed
  from 1 2 3 4 p(3) a show ?thesis
    by (intro exI [of _ "rwlock_unlock c2"] exI [of _ a]) simp
qed

subsection \<open>\<open>cache_create\<close>\<close>

lemma hsize_odd: "(cap :: size_t) * 2 + 1 \<noteq> 0"
proof
  assume "cap * 2 + 1 = 0"
  then have "even (cap * 2 + 1)" by simp
  then show False by simp
qed

lemma cache_create_Some:
  "cache_create m cap = Some c \<longleftrightarrow>
     cap \<noteq> 0 \<and> calloc_ok (calloc_cache m) 1 104 \<and> calloc_ok (calloc_htable m) (cap * 2 + 1) 8 \<and>
     c = \<lparr>capacity = cap, size_c = 0, hsize = cap * 2 + 1,
          htable = replicate (unat (cap * 2 + 1)) None,
          head = None, tail = None, lock = [Init], heap = Map.empty, strings = {}\<rparr>"
  by (auto simp: cache_create_def Let_def)

lemma cache_create_inv:
  assumes "cache_create m cap = Some c"
  shows "cache_inv c []"
proof -
  from assms have c: "c = \<lparr>capacity = cap, size_c = 0, hsize = cap * 2 + 1,
          htable = replicate (unat (cap * 2 + 1)) None,
          head = None, tail = None, lock = [Init], heap = Map.empty, strings = {}\<rparr>"
    and cap: "cap \<noteq> 0" and ok: "calloc_ok (calloc_htable m) (cap * 2 + 1) 8"
    by (simp_all add: cache_create_Some)
  have "dll_inv c []" by (simp add: c dll_inv_def)
  moreover have "bucket_inv c []"
    using hsize_odd [of cap] by (simp add: c bucket_inv_def)
  moreover have "sizes_inv c" using cap ok by (simp add: c sizes_inv_def calloc_ok_def)
  ultimately show ?thesis by (simp add: cache_inv_def entries_def) (simp add: c)
qed

text \<open>
  Claim C10. \<open>cache_get\<close> called with a null cache or with a null key returns
  \<^verbatim>\<open>NULL\<close>, which is also what it returns for a key that is not in the cache: the
  return value does not tell an invalid argument from a miss.
\<close>

theorem get_null_like_miss:
  assumes "cache_inv c xs" and "map_of (entries c xs) k = None"
  shows "map_option fst (cache_get ok None ko) = Some None \<and>
         map_option fst (cache_get ok co None) = Some None \<and>
         map_option fst (cache_get ok (Some c) (Some k)) = Some None"
  using cache_get_miss [OF assms, of ok]
  by (cases co) (simp_all add: cache_get_def)

theorem get_null_like_miss_witness:
  "cache_inv \<lparr>capacity = 1, size_c = 0, hsize = 3, htable = [None, None, None],
          head = None, tail = None, lock = [Init], heap = Map.empty, strings = {}\<rparr> [] \<and>
   map_option fst (cache_get True None (Some ''a'')) = Some None \<and>
   map_option fst (cache_get True (Some \<lparr>capacity = 1, size_c = 0, hsize = 3,
          htable = [None, None, None],
          head = None, tail = None, lock = [Init], heap = Map.empty, strings = {}\<rparr>) None) = Some None \<and>
   map_option fst (cache_get True (Some \<lparr>capacity = 1, size_c = 0, hsize = 3,
          htable = [None, None, None],
          head = None, tail = None, lock = [Init], heap = Map.empty, strings = {}\<rparr>) (Some ''a'')) = Some None"
proof -
  let ?c = "\<lparr>capacity = 1, size_c = 0, hsize = 3, htable = [None, None, None],
          head = None, tail = None, lock = [Init], heap = Map.empty, strings = {}\<rparr>"
  have "unat (3 :: size_t) = Suc (Suc (Suc 0))" by simp
  then have "replicate (unat (3 :: size_t)) None = [None, None, None :: addr option]"
    by (simp only: replicate.simps)
  then have "cache_create \<lparr>calloc_cache = True, calloc_htable = True\<rparr> 1 = Some ?c"
    by (simp add: cache_create_def calloc_ok_def)
  then have inv: "cache_inv ?c []" by (rule cache_create_inv)
  have e: "map_of (entries ?c []) ''a'' = None" by (simp add: entries_def)
  from get_null_like_miss [OF inv e, of True "Some ''a''" "Some ?c"] inv show ?thesis by simp
qed

subsection \<open>\<open>cache_delete\<close>\<close>

lemma rwlock_misc [simp]:
  "bucket_index (rwlock_wrlock c) k = bucket_index c k"
  "bucket_index (rwlock_rdlock c) k = bucket_index c k"
  "bucket_index (rwlock_unlock c) k = bucket_index c k"
  by (simp_all add: rwlock_rdlock_def rwlock_wrlock_def rwlock_unlock_def)

lemma cache_delete_miss:
  assumes inv: "cache_inv c xs" and k: "map_of (entries c xs) k = None"
  shows "cache_delete (Some c) (Some k) = Some (1, Some (rwlock_unlock (rwlock_wrlock c)))"
proof -
  let ?cw = "rwlock_wrlock c"
  from inv have invw: "cache_inv ?cw xs" by simp
  then have b: "bucket_inv ?cw xs" and al: "set xs \<subseteq> dom (heap ?cw)"
    and dk: "distinct (map fst (entries ?cw xs))"
    by (simp_all add: cache_inv_def)
  from bucket_find [OF b al dk, of k] obtain i ys where
    i: "bucket_index ?cw k = Some i" "i < length (htable ?cw)"
       "path hnext (heap ?cw) (htable ?cw ! i) ys" "distinct ys"
       "find (has_key (heap ?cw) k) ys = find (has_key (heap ?cw) k) xs"
    by blast
  from k have "find (has_key (heap c) k) xs = None"
    using find_has_key_None [OF inv, of k] by (simp add: map_of_entries_None)
  with i(5) have f: "find (has_key (heap ?cw) k) ys = None" by simp
  from bucket_scan_prev_chain [OF i(3,4), of k None] f obtain q where
    "bucket_scan_prev (heap ?cw) k (htable ?cw ! i) None = Some (None, q)" by auto
  with i(1,2) show ?thesis
    by (simp add: cache_delete_def Let_def htable_load_Some)
qed

lemma cache_delete_hit:
  assumes inv: "cache_inv c xs" and k: "map_of (entries c xs) k = Some v"
  shows "\<exists>c' a. cache_delete (Some c) (Some k) = Some (0, Some c') \<and> a \<in> set xs \<and>
           has_key (heap c) k a \<and> heap c' a = None \<and>
           cache_inv c' (remove1 a xs) \<and>
           entries c' (remove1 a xs) = spec_delete k (entries c xs) \<and>
           capacity c' = capacity c \<and> hsize c' = hsize c \<and>
           length (htable c') = length (htable c) \<and> size_c c' = size_c c - 1 \<and>
           lock c' = lock c @ [WrLock, Unlock] \<and>
           (storage_inv c xs \<longrightarrow> storage_inv c' (remove1 a xs))"
proof -
  let ?cw = "rwlock_wrlock c"
  from inv have invw: "cache_inv ?cw xs" by simp
  then have b: "bucket_inv ?cw xs" and al: "set xs \<subseteq> dom (heap ?cw)"
    and dk: "distinct (map fst (entries ?cw xs))" and dll: "dll_inv ?cw xs"
    and dom: "dom (heap ?cw) = set xs"
    by (simp_all add: cache_inv_def)
  from dll have d: "distinct xs" by (simp add: dll_inv_def)
  from bucket_find [OF b al dk, of k] obtain i ys where
    i: "bucket_index ?cw k = Some i" "i < length (htable ?cw)" and
    ys: "path hnext (heap ?cw) (htable ?cw ! i) ys" "distinct ys"
       "set ys = {a \<in> set xs. slot_of ?cw a = Some i}" and
    fy: "find (has_key (heap ?cw) k) ys = find (has_key (heap ?cw) k) xs"
    by blast
  from k have "find (has_key (heap c) k) xs \<noteq> None"
    using find_has_key_None [OF inv, of k] by (auto simp: map_of_entries_None [symmetric])
  then obtain a where f: "find (has_key (heap c) k) xs = Some a" by auto
  from find_has_key_Some [OF inv f] obtain nd where
    a: "a \<in> set xs" and nd: "heap ?cw a = Some nd" "key nd = k"
    by auto
  from f fy have fa: "find (has_key (heap ?cw) k) ys = Some a" by simp
  then have ays: "a \<in> set ys" by (auto simp: find_Some_iff)
  from ys(2) have dr: "distinct (rev ys)" by simp
  from bucket_scan_prev_chain [OF ys(1,2), of k None] fa obtain q where
    q: "bucket_scan_prev (heap ?cw) k (htable ?cw ! i) None = Some (Some a, q)"
       "q = (if first ys = Some a then None else succ_of (rev ys) a)"
    by auto
  have q': "q = succ_of (rev ys) a"
    using q(2) succ_of_None [OF dr, of a] ays by auto
  from i(1) nd(2) have ia: "bucket_index ?cw (key nd) = Some i" by simp
  from unlink_at_bucket_inv [OF b d a nd(1) ia ys] q' obtain c1 where
    c1: "unlink_at ?cw i a q = Some c1" "bucket_inv c1 (remove1 a xs)" "same_links ?cw c1"
    by auto
  from c1(1) nd(1) have u: "(case q of Some p \<Rightarrow> set_hnext ?cw p (hnext nd)
           | None \<Rightarrow> htable_store ?cw i (hnext nd)) = Some c1"
    by (simp add: unlink_at_def)
  from same_links_dll_inv [OF c1(3) dll] have dll1: "dll_inv c1 xs" .
  from dll_remove_inv [OF dll1 a] obtain c2 nd2 where
    c2: "dll_remove c1 a = Some c2" "dll_inv c2 (remove1 a xs)" "same_data c1 c2"
        "heap c2 a = Some nd2"
    by blast
  let ?c3 = "c2\<lparr>strings := strings c2 - {key_p nd2} - {value_p nd2},
                 heap := (heap c2)(a := None)\<rparr>"
  let ?c4 = "?c3\<lparr>size_c := size_c ?c3 - 1\<rparr>"
  have nf: "node_free c2 (Some a) = Some ?c3"
    using c2(4) by (simp add: node_free_def free_str_def Let_def)
  have 1: "cache_delete (Some c) (Some k) = Some (0, Some (rwlock_unlock ?c4))"
    using i q(1) nd(1) u c2(1) nf
    by (simp add: cache_delete_def Let_def htable_load_Some)
  from d have an: "a \<notin> set (remove1 a xs)" by simp
  have dll4: "dll_inv ?c4 (remove1 a xs)"
    by (rule dll_inv_frame [OF c2(2)]) (use an in auto)
  have b4: "bucket_inv ?c4 (remove1 a xs)"
    by (rule bucket_inv_frame [OF same_data_bucket_inv [OF c2(3) c1(2)]]) (use an in auto)
  have dom4: "dom (heap ?c4) = set (remove1 a xs)"
    using same_data_dom [OF c2(3)] same_links_dom [OF c1(3)] dom d by auto
  have "entries ?c4 (remove1 a xs) = entries c2 (remove1 a xs)"
    by (rule entries_frame) (use an in auto)
  also have "\<dots> = entries c (remove1 a xs)"
    by (simp add: same_data_entries [OF c2(3)] same_links_entries [OF c1(3)])
  also have "\<dots> = spec_delete k (entries c xs)"
  proof -
    from inv have dk': "distinct (map (fst \<circ> kv_at c) xs)" by (simp add: cache_inv_def entries_def)
    have "map (kv_at c) (remove1 a xs) =
          filter (\<lambda>e. fst e \<noteq> (fst \<circ> kv_at c) a) (map (kv_at c) xs)"
      by (rule map_remove1_filter [OF _ dk' a]) simp
    with nd show ?thesis by (simp add: entries_def spec_delete_def kv_at_def)
  qed
  finally have e4: "entries ?c4 (remove1 a xs) = spec_delete k (entries c xs)" .
  have dk4: "distinct (map fst (entries ?c4 (remove1 a xs)))"
    unfolding e4 spec_delete_def using inv by (simp add: cache_inv_def distinct_map_filter)
  from c1(3) c2(3) have fr: "capacity c2 = capacity c" "hsize c2 = hsize c"
      "size_c c2 = size_c c" "length (htable c2) = length (htable c)" "lock c2 = lock c @ [WrLock]"
    by (simp_all add: same_links_def same_data_def)
  from inv have sz: "unat (size_c c) = length xs" "size_c c \<le> capacity c" "sizes_inv c"
    by (simp_all add: cache_inv_def)
  from a sz(1) have s0: "size_c c \<noteq> 0" by (auto simp: unat_eq_0 [symmetric] simp del: unat_eq_0)
  have sz4: "unat (size_c ?c4) = length (remove1 a xs)"
    using a sz(1) fr(3) s0 by (simp add: unat_minus_one length_remove1)
  have le4: "size_c ?c4 \<le> capacity ?c4"
    using sz(2) fr(1,3) s0 by (simp add: word_le_nat_alt unat_minus_one)
  have si4: "sizes_inv ?c4 = sizes_inv c" by (rule sizes_inv_cong) (simp_all add: fr)
  have inv4: "cache_inv ?c4 (remove1 a xs)"
    unfolding cache_inv_def using dll4 b4 dom4 dk4 sz4 le4 si4 sz(3) by blast
  have hk: "has_key (heap c) k a" using nd by (simp add: has_key_def)
  have st: "storage_inv (rwlock_unlock ?c4) (remove1 a xs)" if si: "storage_inv c xs"
  proof -
    have bl: "blocks_at c2 b = blocks_at c b" for b
      using same_data_blocks [OF c2(3), of b] same_links_blocks [OF c1(3), of b] by simp
    from c1(3) c2(3) have s2: "strings c2 = strings c"
      by (simp add: same_links_def same_data_def)
    from bl [of a] c2(4) have ba: "blocks_at c a = [key_p nd2, value_p nd2]"
      by (simp add: blocks_at_def)
    have s4: "strings ?c4 = strings c - set (blocks_at c a)" unfolding ba s2 [symmetric] by auto
    have b4: "blocks_at ?c4 b = blocks_at c b" if "b \<in> set (remove1 a xs)" for b
    proof -
      from that an have "b \<noteq> a" by auto
      then have "blocks_at ?c4 b = blocks_at c2 b" by (simp add: blocks_at_def)
      with bl show ?thesis by simp
    qed
    from storage_inv_remove [OF si a s4 b4] show ?thesis by simp
  qed
  from 1 a hk inv4 e4 fr st show ?thesis
    by (intro exI [of _ "rwlock_unlock ?c4"] exI [of _ a]) simp
qed

subsection \<open>Eviction, and \<open>cache_put\<close> of a present key\<close>

lemma evict_inv:
  assumes dll: "dll_inv c xs" and b: "bucket_inv c xs" and dom: "dom (heap c) = set xs"
    and dk: "distinct (map fst (entries c xs))" and sz: "unat (size_c c) = length xs"
    and si: "sizes_inv c" and len: "length xs \<le> Suc (unat (capacity c))"
  shows "\<exists>c'. evict c = Some c' \<and> cache_inv c' (take (unat (capacity c)) xs) \<and>
           entries c' (take (unat (capacity c)) xs) = take (unat (capacity c)) (entries c xs) \<and>
           capacity c' = capacity c \<and> hsize c' = hsize c \<and>
           length (htable c') = length (htable c) \<and> lock c' = lock c \<and>
           (storage_inv c xs \<longrightarrow> storage_inv c' (take (unat (capacity c)) xs))"
proof (cases "size_c c > capacity c")
  case False
  then have le: "size_c c \<le> capacity c" by simp
  with sz have "length xs \<le> unat (capacity c)" by (simp add: word_le_nat_alt)
  then have t: "take (unat (capacity c)) xs = xs"
    "take (unat (capacity c)) (entries c xs) = entries c xs"
    by (simp_all add: entries_def)
  have "evict c = Some c" using False by (simp add: evict_def)
  moreover have "cache_inv c xs"
    unfolding cache_inv_def using dll b dom dk sz le si by blast
  ultimately show ?thesis using t by simp
next
  case True
  with sz len have l: "length xs = Suc (unat (capacity c))" by (simp add: word_less_nat_alt)
  then have ne: "xs \<noteq> []" by auto
  from dll have d: "distinct xs" and tl: "tail c = first (rev xs)"
    by (simp_all add: dll_inv_links)
  let ?ev = "last xs"
  from ne have ev: "?ev \<in> set xs" by simp
  from tl ne have tl': "tail c = Some ?ev" by (simp add: first_rev_last)
  have r: "remove1 ?ev xs = take (unat (capacity c)) xs"
    using remove1_last [OF d ne] l by (simp add: butlast_conv_take)
  from dll_remove_inv [OF dll ev] obtain c1 nd1 where
    c1: "dll_remove c ?ev = Some c1" "dll_inv c1 (remove1 ?ev xs)" "same_data c c1"
        "heap c1 ?ev = Some nd1"
    by blast
  from htable_remove_inv [OF same_data_bucket_inv [OF c1(3) b] d ev c1(4)] obtain c2 where
    c2: "htable_remove c1 ?ev = Some c2" "bucket_inv c2 (remove1 ?ev xs)" "same_links c1 c2"
    by blast
  from same_links_heap [OF c2(3), of ?ev] c1(4) obtain nd2 where nd2: "heap c2 ?ev = Some nd2"
    by (cases "heap c2 ?ev") auto
  let ?c3 = "c2\<lparr>size_c := size_c c2 - 1,
                 strings := strings c2 - {key_p nd2} - {value_p nd2},
                 heap := (heap c2)(?ev := None)\<rparr>"
  have 1: "evict c = Some ?c3"
    using True tl' c1(1) c2(1) nd2 by (simp add: evict_def node_free_def free_str_def Let_def)
  from d have an: "?ev \<notin> set (remove1 ?ev xs)" by simp
  have dll3: "dll_inv ?c3 (remove1 ?ev xs)"
    by (rule dll_inv_frame [OF same_links_dll_inv [OF c2(3) c1(2)]]) (use an in auto)
  have b3: "bucket_inv ?c3 (remove1 ?ev xs)"
    by (rule bucket_inv_frame [OF c2(2)]) (use an in auto)
  have dom3: "dom (heap ?c3) = set (remove1 ?ev xs)"
    using same_data_dom [OF c1(3)] same_links_dom [OF c2(3)] dom d by auto
  have "entries ?c3 (remove1 ?ev xs) = entries c2 (remove1 ?ev xs)"
    by (rule entries_frame) (use an in auto)
  also have "\<dots> = entries c (remove1 ?ev xs)"
    by (simp add: same_data_entries [OF c1(3)] same_links_entries [OF c2(3)])
  finally have e3: "entries ?c3 (take (unat (capacity c)) xs) =
      take (unat (capacity c)) (entries c xs)"
    by (simp add: r entries_def take_map)
  have dk3: "distinct (map fst (entries ?c3 (take (unat (capacity c)) xs)))"
    unfolding e3 using dk by (simp add: take_map [symmetric] distinct_take)
  from c1(3) c2(3) have fr: "capacity c2 = capacity c" "hsize c2 = hsize c"
      "size_c c2 = size_c c" "length (htable c2) = length (htable c)" "lock c2 = lock c"
    by (simp_all add: same_links_def same_data_def)
  from sz l have s0: "size_c c \<noteq> 0" by (auto simp: unat_eq_0 [symmetric] simp del: unat_eq_0)
  have sz3: "unat (size_c ?c3) = length (take (unat (capacity c)) xs)"
    using sz l fr(3) s0 by (simp add: unat_minus_one)
  have le3: "size_c ?c3 \<le> capacity ?c3"
    using sz l fr(1,3) s0 by (simp add: word_le_nat_alt unat_minus_one)
  have si3: "sizes_inv ?c3 = sizes_inv c" by (rule sizes_inv_cong) (simp_all add: fr)
  have inv3: "cache_inv ?c3 (take (unat (capacity c)) xs)"
    unfolding cache_inv_def using dll3 b3 dom3 dk3 sz3 le3 si3 si by (simp only: r)
  have st: "storage_inv ?c3 (take (unat (capacity c)) xs)" if sti: "storage_inv c xs"
  proof -
    have bl: "blocks_at c2 b = blocks_at c b" for b
      using same_data_blocks [OF c1(3), of b] same_links_blocks [OF c2(3), of b] by simp
    from c1(3) c2(3) have s2: "strings c2 = strings c"
      by (simp add: same_links_def same_data_def)
    from bl [of ?ev] nd2 have ba: "blocks_at c ?ev = [key_p nd2, value_p nd2]"
      by (simp add: blocks_at_def)
    have s3: "strings ?c3 = strings c - set (blocks_at c ?ev)" unfolding ba s2 [symmetric] by auto
    have b3: "blocks_at ?c3 b = blocks_at c b" if "b \<in> set (remove1 ?ev xs)" for b
    proof -
      from that an have "b \<noteq> ?ev" by auto
      then have "blocks_at ?c3 b = blocks_at c2 b" by (simp add: blocks_at_def)
      with bl show ?thesis by simp
    qed
    from storage_inv_remove [OF sti ev s3 b3] show ?thesis by (simp only: r)
  qed
  from 1 inv3 e3 fr st show ?thesis
    by (intro exI [of _ ?c3]) simp
qed

lemma cache_put_hit_fail:
  assumes inv: "cache_inv c xs" and k: "map_of (entries c xs) k = Some v0"
    and m: "\<not> strdup_nv m"
  shows "cache_put m (Some c) (Some k) (Some v) =
           Some (- 1, Some (rwlock_unlock (rwlock_wrlock c)))"
proof -
  let ?cw = "rwlock_wrlock c"
  from inv have invw: "cache_inv ?cw xs" by simp
  from k have "find (has_key (heap c) k) xs \<noteq> None"
    using find_has_key_None [OF inv, of k] by (auto simp: map_of_entries_None [symmetric])
  then obtain a where f: "find (has_key (heap c) k) xs = Some a" by auto
  with cache_inv_scan [OF invw, of k] m show ?thesis
    by (auto simp: cache_put_def Let_def)
qed

text \<open>
  \<open>cache_put\<close> of a present key, with what it does to the storage of the strings: the
  block of the old value leaves the set of allocated blocks, the block of the copy enters
  it and becomes the value of the node, and the blocks of every other node are as before.
\<close>

lemma cache_put_hit:
  assumes inv: "cache_inv c xs" and k: "map_of (entries c xs) k = Some v0"
    and m: "strdup_nv m"
  shows "\<exists>c' a nd. cache_put m (Some c) (Some k) (Some v) = Some (0, Some c') \<and>
           a \<in> set xs \<and> cache_inv c' (a # remove1 a xs) \<and>
           entries c' (a # remove1 a xs) = spec_touch k v (entries c xs) \<and>
           capacity c' = capacity c \<and> hsize c' = hsize c \<and> size_c c' = size_c c \<and>
           length (htable c') = length (htable c) \<and>
           lock c' = lock c @ [WrLock, Unlock] \<and>
           heap c a = Some nd \<and> key nd = k \<and> value_n nd = v0 \<and>
           strings c' = insert (nv_block m) (strings c) - {value_p nd} \<and>
           blocks_at c' a = [key_p nd, nv_block m] \<and>
           (\<forall>b. b \<noteq> a \<longrightarrow> blocks_at c' b = blocks_at c b)"
proof -
  let ?cw = "rwlock_wrlock c"
  from inv have invw: "cache_inv ?cw xs" by simp
  from k have "find (has_key (heap c) k) xs \<noteq> None"
    using find_has_key_None [OF inv, of k] by (auto simp: map_of_entries_None [symmetric])
  then obtain a where f: "find (has_key (heap c) k) xs = Some a" by auto
  from find_has_key_Some [OF inv f] k obtain nd where
    a: "a \<in> set xs" and nd: "heap ?cw a = Some nd" "key nd = k" "value_n nd = v0"
    by auto
  let ?cs = "free_str (strdup_at ?cw (nv_block m)) (value_p nd)"
  have invs: "cache_inv ?cs xs" using invw by (simp add: free_str_def strdup_at_def)
  have nds: "heap ?cs a = Some nd" "heap (strdup_at ?cw (nv_block m)) a = Some nd"
    using nd(1) by (simp_all add: free_str_def strdup_at_def)
  from set_value_inv [OF invs a nds(1), of "nv_block m" v] obtain c1 where
    c1: "set_value ?cs a (nv_block m) v = Some c1" "cache_inv c1 xs"
        "heap c1 = (heap ?cw)(a \<mapsto> nd\<lparr>value_n := v, value_p := nv_block m\<rparr>)"
        "capacity c1 = capacity ?cw" "hsize c1 = hsize ?cw" "lock c1 = lock ?cw"
        "size_c c1 = size_c ?cw" "length (htable c1) = length (htable ?cw)"
        "strings c1 = insert (nv_block m) (strings c) - {value_p nd}"
    by (auto simp: free_str_def strdup_at_def rwlock_wrlock_def)
  from promote_inv [OF c1(2) a] obtain c2 c3 where
    p: "dll_remove c1 a = Some c2" "dll_push_head c2 a = Some c3"
       "cache_inv c3 (a # remove1 a xs)" "same_data c1 c3"
    by blast
  from cache_inv_scan [OF invw, of k] f m nds(2) c1(1) p(1,2)
  have 1: "cache_put m (Some c) (Some k) (Some v) = Some (0, Some (rwlock_unlock c3))"
    by (auto simp: cache_put_def Let_def)
  have nd1: "heap c1 a = Some (nd\<lparr>value_n := v, value_p := nv_block m\<rparr>)" by (simp add: c1(3))
  have "entries c3 (a # remove1 a xs) = entries c1 (a # remove1 a xs)"
    by (rule same_data_entries [OF p(4)])
  also have "\<dots> = spec_touch k v (entries c1 xs)"
    using promote_entries [OF c1(2) a nd1] nd(2) by simp
  also have "\<dots> = spec_touch k v (entries c xs)"
  proof -
    have fst_eq: "fst (kv_at c1 x) = fst (kv_at c x)" for x
      using nd(1) by (simp add: kv_at_def c1(3))
    have eq: "kv_at c1 x = kv_at c x" if "fst (kv_at c x) \<noteq> k" for x
      using that nd by (auto simp: kv_at_def c1(3))
    have "filter (\<lambda>e. fst e \<noteq> k) (map (kv_at c1) xs) = filter (\<lambda>e. fst e \<noteq> k) (map (kv_at c) xs)"
      by (induction xs) (auto simp: fst_eq eq)
    then show ?thesis by (simp add: spec_touch_def entries_def)
  qed
  finally have 2: "entries (rwlock_unlock c3) (a # remove1 a xs) = spec_touch k v (entries c xs)"
    by simp
  from p(4) c1 have 3: "capacity c3 = capacity c" "hsize c3 = hsize c" "size_c c3 = size_c c"
    "length (htable c3) = length (htable c)" "lock c3 = lock c @ [WrLock]"
    by (simp_all add: same_data_def)
  have s: "strings (rwlock_unlock c3) = insert (nv_block m) (strings c) - {value_p nd}"
    using p(4) c1(9) by (simp add: same_data_def rwlock_unlock_def)
  have b: "blocks_at (rwlock_unlock c3) b = blocks_at c1 b" for b
    using same_data_blocks [OF p(4), of b] by (simp add: rwlock_unlock_def blocks_at_def)
  have b1: "blocks_at c1 a = [key_p nd, nv_block m]" by (simp add: blocks_at_def c1(3))
  have b2: "blocks_at c1 b = blocks_at c b" if "b \<noteq> a" for b
    using that by (simp add: blocks_at_def c1(3))
  from nd have nd': "heap c a = Some nd" by simp
  from 1 2 3 p(3) a nd' nd(2,3) s b b1 b2 show ?thesis
    by (intro exI [of _ "rwlock_unlock c3"] exI [of _ a] exI [of _ nd]) simp
qed

subsection \<open>\<open>cache_put\<close> of an absent key\<close>

lemma cache_put_miss_fail:
  assumes inv: "cache_inv c xs" and k: "map_of (entries c xs) k = None"
    and m: "\<not> node_alloc_ok m"
  shows "cache_put m (Some c) (Some k) (Some v) =
           Some (- 1, Some (rwlock_unlock (rwlock_wrlock c)))"
proof -
  let ?cw = "rwlock_wrlock c"
  from inv have invw: "cache_inv ?cw xs" by simp
  from k have f: "find (has_key (heap c) k) xs = None"
    using find_has_key_None [OF inv, of k] by (simp add: map_of_entries_None)
  from m have "node_create m ?cw k v = (None, ?cw)"
    by (auto simp: node_create_def node_alloc_ok_def split: option.splits)
  with cache_inv_scan [OF invw, of k] f show ?thesis
    by (auto simp: cache_put_def Let_def)
qed

lemma sizes_inv_cap:
  assumes "sizes_inv c"
  shows "capacity c \<noteq> - 1"
proof (rule cap_not_max)
  from assms have h: "hsize c = capacity c * 2 + 1" and u: "unat (hsize c) * 8 < 2 ^ 64"
    unfolding sizes_inv_def by blast+
  from u show "unat (capacity c * 2 + 1) * 8 < 2 ^ 64" unfolding h .
qed

lemma cache_put_miss:
  assumes inv: "cache_inv c xs" and k: "map_of (entries c xs) k = None"
    and m: "node_alloc_ok m" and fresh: "alloc_fresh m c"
  shows "\<exists>c' n. calloc_node m = Some n \<and> n \<notin> set xs \<and>
           cache_put m (Some c) (Some k) (Some v) = Some (0, Some c') \<and>
           cache_inv c' (take (unat (capacity c)) (n # xs)) \<and>
           entries c' (take (unat (capacity c)) (n # xs)) =
             take (unat (capacity c)) ((k, v) # entries c xs) \<and>
           capacity c' = capacity c \<and> hsize c' = hsize c \<and>
           length (htable c') = length (htable c) \<and>
           lock c' = lock c @ [WrLock, Unlock] \<and>
           (storage_inv c xs \<and> strings_fresh m c \<longrightarrow>
              storage_inv c' (take (unat (capacity c)) (n # xs)))"
proof -
  let ?cw = "rwlock_wrlock c"
  from inv have invw: "cache_inv ?cw xs" by simp
  then have b: "bucket_inv ?cw xs" and dll: "dll_inv ?cw xs"
    and dom: "dom (heap ?cw) = set xs"
    by (simp_all add: cache_inv_def)
  from inv have dk: "distinct (map fst (entries c xs))"
    and sz: "unat (size_c c) = length xs" "size_c c \<le> capacity c" and si: "sizes_inv c"
    by (simp_all add: cache_inv_def)
  from k have f: "find (has_key (heap c) k) xs = None"
    and kn: "k \<notin> fst ` set (entries c xs)"
    using find_has_key_None [OF inv, of k] by (simp_all add: map_of_entries_None)
  from m obtain n where n: "calloc_node m = Some n" "strdup_key m" "strdup_value m"
    by (auto simp: node_alloc_ok_def)
  from fresh n(1) have hn: "heap c n = None" by (simp add: alloc_fresh_def)
  with dom have nx: "n \<notin> set xs" by auto
  let ?nd = "\<lparr>key = k, value_n = v, prev = None, next_n = None, hnext = None,
              key_p = key_block m, value_p = value_block m\<rparr>"
  let ?c1 = "?cw\<lparr>strings := insert (value_block m) (insert (key_block m) (strings ?cw)),
                  heap := (heap ?cw)(n \<mapsto> ?nd)\<rparr>"
  have nc: "node_create m ?cw k v = (Some n, ?c1)"
    using n by (simp add: node_create_def strdup_at_def Let_def)
  have dll1: "dll_inv ?c1 xs" by (rule dll_inv_frame [OF dll]) (use nx in auto)
  have b1: "bucket_inv ?c1 xs" by (rule bucket_inv_frame [OF b]) (use nx in auto)
  have n1: "heap ?c1 n = Some ?nd" by simp
  from htable_insert_inv [OF b1 nx n1] obtain c2 where
    c2: "htable_insert ?c1 n = Some c2" "bucket_inv c2 (n # xs)" "same_links ?c1 c2"
    by blast
  from same_links_heap [OF c2(3), of n] obtain nd2 where nd2: "heap c2 n = Some nd2"
    by (cases "heap c2 n") auto
  from dll_push_head_inv [OF same_links_dll_inv [OF c2(3) dll1] nx nd2] obtain c3 where
    c3: "dll_push_head c2 n = Some c3" "dll_inv c3 (n # xs)" "same_data c2 c3"
    by blast
  let ?c4 = "c3\<lparr>size_c := size_c c3 + 1\<rparr>"
  from c2(3) c3(3) have fr: "capacity c3 = capacity c" "hsize c3 = hsize c"
      "size_c c3 = size_c c" "length (htable c3) = length (htable c)" "lock c3 = lock c @ [WrLock]"
    by (simp_all add: same_links_def same_data_def)
  have dll4: "dll_inv ?c4 (n # xs)" by (rule dll_inv_frame [OF c3(2)]) simp_all
  have b4: "bucket_inv ?c4 (n # xs)"
    by (rule bucket_inv_frame [OF same_data_bucket_inv [OF c3(3) c2(2)]]) simp_all
  have dom4: "dom (heap ?c4) = set (n # xs)"
    using same_data_dom [OF c3(3)] same_links_dom [OF c2(3)] dom by auto
  have "entries ?c4 (n # xs) = entries c3 (n # xs)" by (rule entries_frame) simp
  also have "\<dots> = entries ?c1 (n # xs)"
    by (simp add: same_data_entries [OF c3(3)] same_links_entries [OF c2(3)])
  also have "\<dots> = (k, v) # entries ?c1 xs" by (simp add: entries_def kv_at_def)
  also have "entries ?c1 xs = entries c xs" by (rule entries_frame) (use nx in auto)
  finally have e4: "entries ?c4 (n # xs) = (k, v) # entries c xs" .
  have dk4: "distinct (map fst (entries ?c4 (n # xs)))" unfolding e4 using dk kn by simp
  have sz4: "unat (size_c ?c4) = length (n # xs)"
    using unat_succ [OF sz(2) sizes_inv_cap [OF si]] sz(1) fr(3) by simp
  have si4: "sizes_inv ?c4" using sizes_inv_cong [of ?c4 c] fr si by simp
  have len4: "length (n # xs) \<le> Suc (unat (capacity ?c4))"
    using sz fr(1) by (simp add: word_le_nat_alt)
  from evict_inv [OF dll4 b4 dom4 dk4 sz4 si4 len4] obtain c5 where
    c5: "evict ?c4 = Some c5" "cache_inv c5 (take (unat (capacity ?c4)) (n # xs))"
        "entries c5 (take (unat (capacity ?c4)) (n # xs)) =
           take (unat (capacity ?c4)) (entries ?c4 (n # xs))"
        "capacity c5 = capacity ?c4" "hsize c5 = hsize ?c4"
        "length (htable c5) = length (htable ?c4)" "lock c5 = lock ?c4"
        "storage_inv ?c4 (n # xs) \<longrightarrow> storage_inv c5 (take (unat (capacity ?c4)) (n # xs))"
    by blast
  have 1: "cache_put m (Some c) (Some k) (Some v) = Some (0, Some (rwlock_unlock c5))"
    using cache_inv_scan [OF invw, of k] f nc c2(1) c3(1) c5(1)
    by (auto simp: cache_put_def Let_def)
  from c5(2) fr(1) have 2: "cache_inv (rwlock_unlock c5) (take (unat (capacity c)) (n # xs))"
    by simp
  from c5(3) e4 fr(1) have 3: "entries (rwlock_unlock c5) (take (unat (capacity c)) (n # xs)) =
             take (unat (capacity c)) ((k, v) # entries c xs)"
    by simp
  have st: "storage_inv (rwlock_unlock c5) (take (unat (capacity c)) (n # xs))"
    if si: "storage_inv c xs" and sf: "strings_fresh m c"
  proof -
    have bl: "blocks_at ?c4 b = blocks_at ?c1 b" for b
      using same_data_blocks [OF c3(3), of b] same_links_blocks [OF c2(3), of b] by simp
    from c2(3) c3(3) have s4: "strings ?c4 =
        insert (value_block m) (insert (key_block m) (strings c))"
      by (simp add: same_links_def same_data_def)
    have bn: "blocks_at ?c4 n = [key_block m, value_block m]"
      unfolding bl by (simp add: blocks_at_def)
    have bx: "blocks_at ?c4 b = blocks_at c b" if "b \<in> set xs" for b
    proof -
      from that nx have "b \<noteq> n" by auto
      then show ?thesis unfolding bl by (simp add: blocks_at_def)
    qed
    from sf have f: "key_block m \<notin> strings c" "value_block m \<notin> strings c"
        "key_block m \<noteq> value_block m"
      by (simp_all add: strings_fresh_def)
    from storage_inv_insert [OF si f s4 bn bx] c5(8) fr(1) show ?thesis by simp
  qed
  from 1 2 3 c5(4-7) fr n(1) nx st show ?thesis
    by (intro exI [of _ "rwlock_unlock c5"] exI [of _ n]) simp
qed

subsection \<open>Refinement of the association list\<close>

lemma rwlock_unlock_wrlock:
  "rwlock_unlock (rwlock_wrlock c) = c\<lparr>lock := lock c @ [WrLock, Unlock]\<rparr>"
  by (simp add: rwlock_unlock_def rwlock_wrlock_def)

lemma rwlock_unlock_rdlock:
  "rwlock_unlock (rwlock_rdlock c) = c\<lparr>lock := lock c @ [RdLock, Unlock]\<rparr>"
  by (simp add: rwlock_unlock_def rwlock_rdlock_def)

lemma map_of_Some_fst: "map_of es k = Some v \<Longrightarrow> k \<in> fst ` set es"
  by (metis map_of_eq_None_iff option.distinct(1))

lemma in_fst_map_of: "k \<in> fst ` set es \<Longrightarrow> \<exists>v. map_of es k = Some v"
  by (cases "map_of es k") (auto simp: map_of_eq_None_iff)

lemma put_refines:
  assumes rel: "cache_rel c es" and fresh: "alloc_fresh m c"
  shows "\<exists>c'. cache_put m (Some c) (Some k) (Some v) =
              Some (fst (spec_put m (unat (capacity c)) k v es), Some c') \<and>
           cache_rel c' (snd (spec_put m (unat (capacity c)) k v es)) \<and>
           capacity c' = capacity c \<and> hsize c' = hsize c \<and>
           length (htable c') = length (htable c) \<and> lock c' = lock c @ [WrLock, Unlock]"
proof -
  from rel obtain xs where inv: "cache_inv c xs" and es: "entries c xs = es"
    by (auto simp: cache_rel_def)
  have relf: "cache_rel (rwlock_unlock (rwlock_wrlock c)) es"
    using inv es by (auto simp: cache_rel_def)
  show ?thesis
  proof (cases "k \<in> fst ` set es")
    case True
    from in_fst_map_of [OF this] obtain v0 where v0: "map_of (entries c xs) k = Some v0"
      unfolding es by (rule exE)
    show ?thesis
    proof (cases "strdup_nv m")
      case False
      have sp: "spec_put m (unat (capacity c)) k v es = (- 1, es)"
        using True False by (simp add: spec_put_def)
      show ?thesis
        unfolding sp fst_conv snd_conv cache_put_hit_fail [OF inv v0 False, of v]
        by (intro exI [of _ "rwlock_unlock (rwlock_wrlock c)"] conjI refl relf) simp_all
    next
      case m: True
      from cache_put_hit [OF inv v0 m, of v] obtain c' a where
        "cache_put m (Some c) (Some k) (Some v) = Some (0, Some c')"
        "cache_inv c' (a # remove1 a xs)"
        "entries c' (a # remove1 a xs) = spec_touch k v (entries c xs)"
        "capacity c' = capacity c" "hsize c' = hsize c"
        "length (htable c') = length (htable c)" "lock c' = lock c @ [WrLock, Unlock]"
        by blast
      moreover have "spec_put m (unat (capacity c)) k v es = (0, spec_touch k v es)"
        using True m by (simp add: spec_put_def)
      ultimately show ?thesis using es
        by (intro exI [of _ c']) (auto simp: cache_rel_def)
    qed
  next
    case False
    then have kn: "map_of (entries c xs) k = None" using es by (simp add: map_of_eq_None_iff)
    show ?thesis
    proof (cases "node_alloc_ok m")
      case m: False
      have sp: "spec_put m (unat (capacity c)) k v es = (- 1, es)"
        using False m by (simp add: spec_put_def)
      show ?thesis
        unfolding sp fst_conv snd_conv cache_put_miss_fail [OF inv kn m, of v]
        by (intro exI [of _ "rwlock_unlock (rwlock_wrlock c)"] conjI refl relf) simp_all
    next
      case m: True
      from cache_put_miss [OF inv kn m fresh, of v] obtain c' n where
        "cache_put m (Some c) (Some k) (Some v) = Some (0, Some c')"
        "cache_inv c' (take (unat (capacity c)) (n # xs))"
        "entries c' (take (unat (capacity c)) (n # xs)) =
             take (unat (capacity c)) ((k, v) # entries c xs)"
        "capacity c' = capacity c" "hsize c' = hsize c"
        "length (htable c') = length (htable c)" "lock c' = lock c @ [WrLock, Unlock]"
        by blast
      moreover have "spec_put m (unat (capacity c)) k v es =
          (0, take (unat (capacity c)) ((k, v) # es))"
        using False m by (simp add: spec_put_def)
      ultimately show ?thesis using es
        by (intro exI [of _ c']) (auto simp: cache_rel_def)
    qed
  qed
qed

lemma get_refines:
  assumes rel: "cache_rel c es"
  shows "\<exists>c'. cache_get ok (Some c) (Some k) = Some (fst (spec_get ok k es), Some c') \<and>
           cache_rel c' (snd (spec_get ok k es)) \<and>
           capacity c' = capacity c \<and> hsize c' = hsize c \<and> size_c c' = size_c c \<and>
           length (htable c') = length (htable c)"
proof -
  from rel obtain xs where inv: "cache_inv c xs" and es: "entries c xs = es"
    by (auto simp: cache_rel_def)
  show ?thesis
  proof (cases "map_of es k")
    case None
    with cache_get_miss [OF inv, of k ok] inv es show ?thesis
      by (auto simp: spec_get_def cache_rel_def)
  next
    case (Some v)
    with es have "map_of (entries c xs) k = Some v" by simp
    from cache_get_hit [OF inv this, of ok] obtain c' a where
      "cache_get ok (Some c) (Some k) = Some (strdup ok v, Some c')"
      "cache_inv c' (a # remove1 a xs)"
      "entries c' (a # remove1 a xs) = spec_touch k v (entries c xs)"
      "capacity c' = capacity c" "hsize c' = hsize c" "size_c c' = size_c c"
      "htable c' = htable c"
      by blast
    with Some es show ?thesis
      by (auto simp: spec_get_def cache_rel_def strdup_def)
  qed
qed

lemma spec_delete_absent: "k \<notin> fst ` set es \<Longrightarrow> spec_delete k es = es"
  by (auto simp: spec_delete_def filter_id_conv)

lemma delete_refines:
  assumes rel: "cache_rel c es"
  shows "\<exists>c'. cache_delete (Some c) (Some k) =
              Some (if k \<in> fst ` set es then 0 else 1, Some c') \<and>
           cache_rel c' (spec_delete k es) \<and>
           capacity c' = capacity c \<and> hsize c' = hsize c \<and>
           length (htable c') = length (htable c)"
proof -
  from rel obtain xs where inv: "cache_inv c xs" and es: "entries c xs = es"
    by (auto simp: cache_rel_def)
  show ?thesis
  proof (cases "k \<in> fst ` set es")
    case False
    then have kn: "map_of (entries c xs) k = None" using es by (simp add: map_of_eq_None_iff)
    from cache_delete_miss [OF inv kn] False inv es show ?thesis
      by (auto simp: spec_delete_absent cache_rel_def)
  next
    case True
    from in_fst_map_of [OF this] obtain v0 where v0: "map_of (entries c xs) k = Some v0"
      unfolding es by (rule exE)
    from cache_delete_hit [OF inv v0] obtain c' a where
      "cache_delete (Some c) (Some k) = Some (0, Some c')"
      "cache_inv c' (remove1 a xs)"
      "entries c' (remove1 a xs) = spec_delete k (entries c xs)"
      "capacity c' = capacity c" "hsize c' = hsize c"
      "length (htable c') = length (htable c)"
      by blast
    with True es show ?thesis
      by (auto simp: cache_rel_def)
  qed
qed

lemma step_refines:
  assumes rel: "cache_rel c es" and fresh: "op_fresh c x"
  shows "\<exists>c'. step c x = Some c' \<and> cache_rel c' (spec_step (unat (capacity c)) es x) \<and>
           capacity c' = capacity c \<and> hsize c' = hsize c \<and>
           length (htable c') = length (htable c)"
proof (cases x)
  case (Put m k v)
  with fresh have "alloc_fresh m c" by simp
  from put_refines [OF rel this, of k v] Put show ?thesis by auto
next
  case (Get ok k)
  from get_refines [OF rel, of ok k] Get show ?thesis by auto
next
  case (Delete k)
  from delete_refines [OF rel, of k] Delete show ?thesis by auto
qed

lemma run_refines:
  "cache_rel c es \<Longrightarrow> fresh_run c ops \<Longrightarrow>
   \<exists>c'. run c ops = Some c' \<and> cache_rel c' (foldl (spec_step (unat (capacity c))) es ops) \<and>
        capacity c' = capacity c \<and> hsize c' = hsize c \<and>
        length (htable c') = length (htable c)"
proof (induction ops arbitrary: c es)
  case Nil
  then show ?case by simp
next
  case (Cons x ops)
  from Cons.prems have f: "op_fresh c x" by simp
  from step_refines [OF Cons.prems(1) f] obtain c1 where
    c1: "step c x = Some c1" "cache_rel c1 (spec_step (unat (capacity c)) es x)"
        "capacity c1 = capacity c" "hsize c1 = hsize c" "length (htable c1) = length (htable c)"
    by blast
  from Cons.prems(2) c1(1) have "fresh_run c1 ops" by simp
  from Cons.IH [OF c1(2) this] c1 show ?case by simp
qed

lemma lookup_rel: "cache_rel c es \<Longrightarrow> lookup c k = Some (map_of es k)"
  using get_refines [of c es True k]
  by (auto simp: lookup_def spec_get_def split: option.splits)

lemma cache_create_rel: "cache_create m cap = Some c \<Longrightarrow> cache_rel c []"
  using cache_create_inv [of m cap c] by (auto simp: cache_rel_def entries_def)

lemma fresh_run_append: "fresh_run c (xs @ ys) \<Longrightarrow> fresh_run c xs"
  by (induction xs arbitrary: c) (auto split: option.splits)

subsection \<open>The storage of the strings along the operations\<close>

text \<open>
  Every public operation keeps the storage of the strings in order, when the allocator
  returns blocks that are not allocated.
\<close>

lemma step_storage:
  assumes inv: "cache_inv c xs" and si: "storage_inv c xs"
    and f: "op_fresh c x" and sf: "op_strings_fresh c x"
  shows "\<exists>c' ys. step c x = Some c' \<and> cache_inv c' ys \<and> storage_inv c' ys"
proof (cases x)
  case (Put m k v)
  with f sf have fr: "alloc_fresh m c" and sfr: "strings_fresh m c" by simp_all
  show ?thesis
  proof (cases "map_of (entries c xs) k")
    case None
    show ?thesis
    proof (cases "node_alloc_ok m")
      case True
      from cache_put_miss [OF inv None True fr, of v] sfr si obtain c' n where
        "cache_put m (Some c) (Some k) (Some v) = Some (0, Some c')"
        "cache_inv c' (take (unat (capacity c)) (n # xs))"
        "storage_inv c' (take (unat (capacity c)) (n # xs))"
        by blast
      with Put show ?thesis by auto
    next
      case False
      from cache_put_miss_fail [OF inv None False, of v] inv si Put show ?thesis
        by (intro exI [of _ "rwlock_unlock (rwlock_wrlock c)"] exI [of _ xs]) simp
    qed
  next
    case (Some v0)
    show ?thesis
    proof (cases "strdup_nv m")
      case True
      from inv have dx: "distinct xs" by (simp add: cache_inv_def dll_inv_def)
      from cache_put_hit [OF inv Some True, of v] obtain c' a nd where
        c': "cache_put m (Some c) (Some k) (Some v) = Some (0, Some c')" "a \<in> set xs"
            "cache_inv c' (a # remove1 a xs)" "heap c a = Some nd"
            "strings c' = insert (nv_block m) (strings c) - {value_p nd}"
            "blocks_at c' a = [key_p nd, nv_block m]"
            "\<forall>b. b \<noteq> a \<longrightarrow> blocks_at c' b = blocks_at c b"
        by blast
      from sfr have "nv_block m \<notin> strings c" by (simp add: strings_fresh_def)
      from storage_inv_replace [OF si c'(2) dx c'(4) this c'(5,6)] c'(7)
      have "storage_inv c' (a # remove1 a xs)" by blast
      with c'(1,3) Put show ?thesis by auto
    next
      case False
      from cache_put_hit_fail [OF inv Some False, of v] inv si Put show ?thesis
        by (intro exI [of _ "rwlock_unlock (rwlock_wrlock c)"] exI [of _ xs]) simp
    qed
  qed
next
  case (Get ok k)
  show ?thesis
  proof (cases "map_of (entries c xs) k")
    case None
    from cache_get_miss [OF inv None, of ok] inv si Get show ?thesis
      by (intro exI [of _ "rwlock_unlock (rwlock_rdlock c)"] exI [of _ xs]) simp
  next
    case (Some v)
    from cache_get_hit [OF inv Some, of ok] si obtain c' a where
      "cache_get ok (Some c) (Some k) = Some (strdup ok v, Some c')"
      "cache_inv c' (a # remove1 a xs)" "storage_inv c' (a # remove1 a xs)"
      by blast
    with Get show ?thesis by auto
  qed
next
  case (Delete k)
  show ?thesis
  proof (cases "map_of (entries c xs) k")
    case None
    from cache_delete_miss [OF inv None] inv si Delete show ?thesis
      by (intro exI [of _ "rwlock_unlock (rwlock_wrlock c)"] exI [of _ xs]) simp
  next
    case (Some v)
    from cache_delete_hit [OF inv Some] si obtain c' a where
      "cache_delete (Some c) (Some k) = Some (0, Some c')"
      "cache_inv c' (remove1 a xs)" "storage_inv c' (remove1 a xs)"
      by blast
    with Delete show ?thesis by auto
  qed
qed

lemma run_storage:
  "cache_inv c xs \<Longrightarrow> storage_inv c xs \<Longrightarrow> fresh_run c ops \<Longrightarrow> strings_fresh_run c ops \<Longrightarrow>
   \<exists>c' ys. run c ops = Some c' \<and> cache_inv c' ys \<and> storage_inv c' ys"
proof (induction ops arbitrary: c xs)
  case Nil
  then show ?case by auto
next
  case (Cons x ops)
  from Cons.prems have f: "op_fresh c x" "op_strings_fresh c x" by simp_all
  from step_storage [OF Cons.prems(1,2) f] obtain c1 ys where
    c1: "step c x = Some c1" "cache_inv c1 ys" "storage_inv c1 ys"
    by blast
  from Cons.prems(3,4) c1(1) have "fresh_run c1 ops" "strings_fresh_run c1 ops" by simp_all
  from Cons.IH [OF c1(2,3) this] c1(1) show ?case by simp
qed

text \<open>
  From \<open>cache_create\<close> on, through any calls during which the allocator returns nodes
  and blocks that are not allocated, the storage of the strings is in order: the
  allocated blocks are the keys and the values of the nodes of the cache, each block
  being one string of one node.
\<close>

lemma created_storage_inv:
  assumes "cache_create m cap = Some c0" and "fresh_run c0 ops" and "strings_fresh_run c0 ops"
  shows "\<exists>c xs. run c0 ops = Some c \<and> cache_inv c xs \<and> storage_inv c xs"
proof -
  from assms(1) have "strings c0 = {}"
    by (auto simp: cache_create_def Let_def split: if_splits)
  then have "storage_inv c0 []" by (simp add: storage_inv_def owned_def)
  from run_storage [OF cache_create_inv [OF assms(1)] this assms(2,3)] show ?thesis .
qed

subsection \<open>The example inputs\<close>

lemma hash_examples:
  "hash_str ''a'' mod 5 = 0" "hash_str ''b'' mod 5 = 1" "hash_str ''c'' mod 5 = 2"
  by (simp_all add: hash_str_def)

lemmas eval_defs =
  Let_def bucket_index_def hash_examples htable_load_def htable_store_def
  rwlock_rdlock_def rwlock_wrlock_def rwlock_unlock_def node_create_def node_free_def
  htable_insert_def htable_remove_def set_hnext_def set_prev_def set_next_def set_value_def
  strdup_at_def free_str_def
  dll_push_head_def dll_remove_def evict_def strdup_def
  bucket_scan_Some bucket_scan_prev_Some htable_remove_loop_Some
  alloc_at_def no_memory_def ok_create_def

lemma empty2_create: "cache_create ok_create 2 = Some empty2"
proof -
  have "unat (5 :: size_t) = Suc (Suc (Suc (Suc (Suc 0))))" by simp
  then have "replicate (unat (5 :: size_t)) None = [None, None, None, None, None :: addr option]"
    by (simp only: replicate.simps)
  then show ?thesis
    by (simp add: cache_create_def calloc_ok_def ok_create_def empty2_def)
qed

lemma empty2_inv: "cache_inv empty2 []"
  using empty2_create by (rule cache_create_inv)

lemma empty2_rel: "cache_rel empty2 []"
  using empty2_create by (rule cache_create_rel)

lemma put_a_empty2:
  "cache_put (alloc_at 1) (Some empty2) (Some ''a'') (Some ''1'') = Some (0, Some cache_a)"
  by (simp add: cache_put_def empty2_def cache_a_def eval_defs) auto

lemma cache_a_inv: "cache_inv cache_a [1] \<and> entries cache_a [1] = [(''a'', ''1'')]"
proof -
  have k: "map_of (entries empty2 []) ''a'' = None" by (simp add: entries_def)
  have m: "node_alloc_ok (alloc_at 1)" by (simp add: node_alloc_ok_def alloc_at_def)
  have f: "alloc_fresh (alloc_at 1) empty2" by (simp add: alloc_fresh_def alloc_at_def empty2_def)
  from cache_put_miss [OF empty2_inv k m f, of "''1''"] put_a_empty2
  have "cache_inv cache_a (take (unat (capacity empty2)) [1])"
    "entries cache_a (take (unat (capacity empty2)) [1]) =
       take (unat (capacity empty2)) ((''a'', ''1'') # entries empty2 [])"
    by (auto simp: alloc_at_def)
  then show ?thesis by (simp add: empty2_def entries_def)
qed

lemma cache_a_rel: "cache_rel cache_a [(''a'', ''1'')]"
  using cache_a_inv by (auto simp: cache_rel_def)

lemma put_b_cache_a:
  "cache_put (alloc_at 2) (Some cache_a) (Some ''b'') (Some ''2'') = Some (0, Some cache_ab)"
  by (simp add: cache_put_def cache_a_def cache_ab_def eval_defs fun_upd_twist) auto

lemma cache_ab_inv:
  "cache_inv cache_ab [2, 1] \<and> entries cache_ab [2, 1] = [(''b'', ''2''), (''a'', ''1'')]"
proof -
  from cache_a_inv have inv: "cache_inv cache_a [1]" and e: "entries cache_a [1] = [(''a'', ''1'')]"
    by simp_all
  have k: "map_of (entries cache_a [1]) ''b'' = None" unfolding e by simp
  have m: "node_alloc_ok (alloc_at 2)" by (simp add: node_alloc_ok_def alloc_at_def)
  have f: "alloc_fresh (alloc_at 2) cache_a" by (simp add: alloc_fresh_def alloc_at_def cache_a_def)
  have c: "unat (capacity cache_a) = 2" by (simp add: cache_a_def)
  have n: "calloc_node (alloc_at 2) = Some 2" by (simp add: alloc_at_def)
  from cache_put_miss [OF inv k m f, of "''2''"] put_b_cache_a
  have "cache_inv cache_ab (take 2 [2, 1])"
    "entries cache_ab (take 2 [2, 1]) = take 2 ((''b'', ''2'') # entries cache_a [1])"
    unfolding c n by auto
  then show ?thesis unfolding e by simp
qed

lemma put_c_cache_ab:
  "cache_put (alloc_at 3) (Some cache_ab) (Some ''c'') (Some ''3'') = Some (0, Some cache_bc)"
  by (simp add: cache_put_def cache_ab_def cache_bc_def eval_defs fun_eq_iff) auto

lemma run_abc:
  "run empty2 (put_ops (take 1 abc_puts)) = Some cache_a"
  "run empty2 (put_ops (take 2 abc_puts)) = Some cache_ab"
  "run empty2 (put_ops abc_puts) = Some cache_bc"
  using put_a_empty2 put_b_cache_a put_c_cache_ab
  by (simp_all add: put_ops_def abc_puts_def)

lemma cache_bc_rel: "cache_rel cache_bc [(''c'', ''3''), (''b'', ''2'')]"
proof -
  have "foldl (spec_step (unat (capacity empty2))) [] (put_ops abc_puts) =
          [(''c'', ''3''), (''b'', ''2'')]"
    by (simp add: put_ops_def abc_puts_def spec_put_def node_alloc_ok_def alloc_at_def
          empty2_def)
  with run_refines [OF empty2_rel, of "put_ops abc_puts"] run_abc(3) show ?thesis
    using put_a_empty2 put_b_cache_a put_c_cache_ab
    by (simp add: put_ops_def abc_puts_def alloc_fresh_def alloc_at_def empty2_def cache_a_def
          cache_ab_def)
qed

lemma fresh_abc: "fresh_run empty2 (put_ops abc_puts)"
  using put_a_empty2 put_b_cache_a put_c_cache_ab
  by (simp add: put_ops_def abc_puts_def)
     (simp add: alloc_fresh_def alloc_at_def empty2_def cache_a_def cache_ab_def)

subsection \<open>Creation (claim C8)\<close>

lemma unat_hsize:
  fixes cap :: size_t
  shows "unat (cap * 2 + 1) = (2 * unat cap + 1) mod 2 ^ 64"
  by (simp add: unat_word_ariths mod_simps mult.commute)

text \<open>
  Claim C8, as stated, fails: \<^verbatim>\<open>capacity * 2 + 1\<close> is computed in \<^verbatim>\<open>size_t\<close>, and for
  the capacity $2^{63}$ it wraps to 1, so the cache is created with one bucket and not
  with $2 \cdot 2^{63} + 1$.
\<close>

theorem create_bucket_count_counterexample:
  "map_option capacity (cache_create ok_create (2 ^ 63)) = Some (2 ^ 63) \<and>
   map_option hsize (cache_create ok_create (2 ^ 63)) = Some 1 \<and>
   unat (1 :: size_t) \<noteq> 2 * unat (2 ^ 63 :: size_t) + 1"
  by (simp add: cache_create_def calloc_ok_def ok_create_def)

text \<open>
  Claim C8, amended. \<open>cache_create\<close> fails exactly when the capacity is zero or one of
  its two allocations fails. On success the cache is empty (size 0, no node allocated,
  head and tail null, every bucket null), and its bucket count is
  \<open>2 * capacity + 1\<close> modulo $2^{64}$, hence \<open>2 * capacity + 1\<close> whenever the capacity
  is below $2^{63}$; no sequence of later \<open>put\<close>, \<open>get\<close> and \<open>delete\<close> calls changes
  the bucket count or the length of the bucket array.
\<close>

theorem create_spec:
  "(cache_create m cap = None \<longleftrightarrow>
      cap = 0 \<or> \<not> calloc_ok (calloc_cache m) 1 104 \<or>
      \<not> calloc_ok (calloc_htable m) (cap * 2 + 1) 8) \<and>
   (\<forall>c. cache_create m cap = Some c \<longrightarrow>
      capacity c = cap \<and> size_c c = 0 \<and> head c = None \<and> tail c = None \<and>
      heap c = Map.empty \<and> htable c = replicate (unat (hsize c)) None \<and>
      unat (hsize c) = (2 * unat cap + 1) mod 2 ^ 64 \<and>
      (unat cap < 2 ^ 63 \<longrightarrow> unat (hsize c) = 2 * unat cap + 1) \<and>
      (\<forall>ops. fresh_run c ops \<longrightarrow>
         (\<exists>c'. run c ops = Some c' \<and> hsize c' = hsize c \<and>
               length (htable c') = length (htable c))))"
proof (intro conjI allI impI)
  show "cache_create m cap = None \<longleftrightarrow>
      cap = 0 \<or> \<not> calloc_ok (calloc_cache m) 1 104 \<or>
      \<not> calloc_ok (calloc_htable m) (cap * 2 + 1) 8"
    by (simp add: cache_create_def Let_def)
next
  fix c assume c: "cache_create m cap = Some c"
  then have e: "c = \<lparr>capacity = cap, size_c = 0, hsize = cap * 2 + 1,
          htable = replicate (unat (cap * 2 + 1)) None,
          head = None, tail = None, lock = [Init], heap = Map.empty, strings = {}\<rparr>"
    by (simp add: cache_create_Some)
  show "capacity c = cap" "size_c c = 0" "head c = None" "tail c = None"
    "heap c = Map.empty" "htable c = replicate (unat (hsize c)) None"
    by (simp_all add: e)
  show h: "unat (hsize c) = (2 * unat cap + 1) mod 2 ^ 64"
    by (simp only: e cache_t.simps unat_hsize)
  {
    assume "unat cap < 2 ^ 63"
    then have "2 * unat cap + 1 < 2 ^ 64" by simp
    with h show "unat (hsize c) = 2 * unat cap + 1" by simp
  }
  {
    fix ops assume f: "fresh_run c ops"
    from run_refines [OF cache_create_rel [OF c] f]
    show "\<exists>c'. run c ops = Some c' \<and> hsize c' = hsize c \<and>
               length (htable c') = length (htable c)"
      by blast
  }
qed

theorem create_spec_witness:
  "cache_create ok_create 2 = Some empty2 \<and>
   capacity empty2 = 2 \<and> size_c empty2 = 0 \<and> unat (hsize empty2) = 5 \<and>
   run empty2 [Put (alloc_at 1) ''a'' ''1''] = Some cache_a \<and>
   hsize cache_a = hsize empty2 \<and> length (htable cache_a) = length (htable empty2)"
proof -
  have f: "fresh_run empty2 [Put (alloc_at 1) ''a'' ''1'']"
    by (simp add: alloc_fresh_def alloc_at_def empty2_def split: option.splits)
  have r: "run empty2 [Put (alloc_at 1) ''a'' ''1''] = Some cache_a"
    using put_a_empty2 by simp
  have u: "unat (2 :: size_t) < 2 ^ 63" by simp
  from create_spec [of ok_create 2] empty2_create
  have a: "capacity empty2 = 2" "size_c empty2 = 0"
    and b: "unat (2 :: size_t) < 2 ^ 63 \<longrightarrow> unat (hsize empty2) = 2 * unat (2 :: size_t) + 1"
    and c: "\<forall>ops. fresh_run empty2 ops \<longrightarrow>
         (\<exists>c'. run empty2 ops = Some c' \<and> hsize c' = hsize empty2 \<and>
               length (htable c') = length (htable empty2))"
    by blast+
  from b u have b': "unat (hsize empty2) = 5" by simp
  from c f r have "hsize cache_a = hsize empty2 \<and> length (htable cache_a) = length (htable empty2)"
    by (metis option.inject)
  with empty2_create a b' r show ?thesis by blast
qed

subsection \<open>The invariant between operations (claim C9)\<close>

lemma run_append:
  "run c (xs @ ys) = (case run c xs of None \<Rightarrow> None | Some c' \<Rightarrow> run c' ys)"
  by (induction xs arbitrary: c) (auto split: option.splits)

lemma fresh_run_append2:
  "fresh_run c (xs @ ys) \<Longrightarrow> run c xs = Some c' \<Longrightarrow> fresh_run c' ys"
  by (induction xs arbitrary: c) (auto split: option.splits)

lemma cache_inv_slot:
  assumes inv: "cache_inv c xs" and a: "a \<in> set xs"
  shows "\<exists>i<length (htable c). slot_of c a = Some i"
proof -
  from cache_inv_alloc [OF inv a] obtain nd where nd: "heap c a = Some nd" by blast
  from inv have hs: "hsize c \<noteq> 0" "length (htable c) = unat (hsize c)"
    by (simp_all add: cache_inv_def bucket_inv_def)
  from bucket_index_less [OF hs(1), of "key nd"] nd hs(2) show ?thesis
    by (auto simp: slot_of_def)
qed

lemma cache_inv_buckets:
  assumes inv: "cache_inv c xs"
  shows "\<exists>bs. (\<forall>i<length (htable c). path hnext (heap c) (htable c ! i) (bs i) \<and>
                 distinct (bs i) \<and> set (bs i) = {a \<in> set xs. slot_of c a = Some i}) \<and>
              (\<forall>a. a \<in> set xs \<longleftrightarrow> (\<exists>i<length (htable c). a \<in> set (bs i))) \<and>
              length xs = (\<Sum>i<length (htable c). length (bs i))"
proof -
  let ?n = "length (htable c)"
  from inv have "\<forall>i. \<exists>ys. i < ?n \<longrightarrow> path hnext (heap c) (htable c ! i) ys \<and> distinct ys \<and>
        set ys = {a \<in> set xs. slot_of c a = Some i}"
    by (auto simp: cache_inv_def bucket_inv_def)
  then obtain bs where bs: "\<And>i. i < ?n \<Longrightarrow> path hnext (heap c) (htable c ! i) (bs i) \<and>
      distinct (bs i) \<and> set (bs i) = {a \<in> set xs. slot_of c a = Some i}"
    by metis
  have un: "a \<in> set xs \<longleftrightarrow> (\<exists>i<?n. a \<in> set (bs i))" for a
    using bs cache_inv_slot [OF inv, of a] by auto
  from inv have d: "distinct xs" by (simp add: cache_inv_def dll_inv_def)
  have "(\<Sum>i<?n. length (bs i)) = (\<Sum>i<?n. card (set (bs i)))"
  proof (rule sum.cong [OF refl])
    fix i assume "i \<in> {..<?n}"
    with bs [of i] have "distinct (bs i)" by simp
    then show "length (bs i) = card (set (bs i))" by (simp add: distinct_card)
  qed
  also have "\<dots> = card (\<Union>i\<in>{..<?n}. set (bs i))"
    by (rule card_UN_disjoint [symmetric]) (use bs in auto)
  also have "(\<Union>i\<in>{..<?n}. set (bs i)) = set xs" using un by auto
  also have "card (set xs) = length xs" using d by (rule distinct_card)
  finally have "length xs = (\<Sum>i<?n. length (bs i))" by simp
  with bs un show ?thesis by blast
qed

text \<open>
  Every cache that the operations can produce satisfies \<open>cache_inv\<close>: the theorems below
  that assume \<open>cache_inv c xs\<close> are about all of them.
\<close>

lemma created_run_inv:
  assumes "cache_create m cap = Some c0" and "fresh_run c0 ops"
  shows "\<exists>c xs. run c0 ops = Some c \<and> cache_inv c xs"
  using run_refines [OF cache_create_rel [OF assms(1)] assms(2)]
  by (auto simp: cache_rel_def)

text \<open>
  Claim C9. After every sequence of public operations on a created cache, there is a
  list \<open>xs\<close> of distinct nodes such that: the recency list is \<open>xs\<close> (\<^verbatim>\<open>next\<close> from
  \<^verbatim>\<open>head\<close>, and \<^verbatim>\<open>prev\<close> from \<^verbatim>\<open>tail\<close> backwards); the chains \<open>bs i\<close> of the
  buckets hold each node of \<open>xs\<close>, in the bucket of its key, and nothing else, so a node
  is reachable from the hash index if and only if it is in the recency list; no two
  nodes have the same key; and \<^verbatim>\<open>size\<close> is the number of nodes of the recency list and
  the number of nodes in the chains.
\<close>

theorem quiescent_invariant:
  assumes "cache_create m cap = Some c0" and "fresh_run c0 ops"
  shows "\<exists>c xs bs. run c0 ops = Some c \<and>
     distinct xs \<and> path next_n (heap c) (head c) xs \<and>
     path prev (heap c) (tail c) (rev xs) \<and>
     (\<forall>i<length (htable c). path hnext (heap c) (htable c ! i) (bs i) \<and>
        distinct (bs i) \<and> set (bs i) = {a \<in> set xs. slot_of c a = Some i}) \<and>
     (\<forall>a. a \<in> set xs \<longleftrightarrow> (\<exists>i<length (htable c). a \<in> set (bs i))) \<and>
     distinct (map fst (entries c xs)) \<and>
     unat (size_c c) = length xs \<and>
     unat (size_c c) = (\<Sum>i<length (htable c). length (bs i))"
proof -
  from run_refines [OF cache_create_rel [OF assms(1)] assms(2)] obtain c xs where
    c: "run c0 ops = Some c" "cache_inv c xs"
    by (auto simp: cache_rel_def)
  from cache_inv_buckets [OF c(2)] obtain bs where
    bs: "\<forall>i<length (htable c). path hnext (heap c) (htable c ! i) (bs i) \<and>
                 distinct (bs i) \<and> set (bs i) = {a \<in> set xs. slot_of c a = Some i}"
        "\<forall>a. a \<in> set xs \<longleftrightarrow> (\<exists>i<length (htable c). a \<in> set (bs i))"
        "length xs = (\<Sum>i<length (htable c). length (bs i))"
    by blast
  from c(2) have "distinct xs" "path next_n (heap c) (head c) xs"
    "path prev (heap c) (tail c) (rev xs)" "distinct (map fst (entries c xs))"
    "unat (size_c c) = length xs"
    by (simp_all add: cache_inv_def dll_inv_def)
  with c(1) bs show ?thesis
    by (intro exI [of _ c] exI [of _ xs] exI [of _ bs]) simp
qed

theorem quiescent_invariant_witness:
  "cache_create ok_create 2 = Some empty2 \<and>
   fresh_run empty2 [Put (alloc_at 1) ''a'' ''1''] \<and>
   (\<exists>c xs bs. run empty2 [Put (alloc_at 1) ''a'' ''1''] = Some c \<and>
     distinct xs \<and> path next_n (heap c) (head c) xs \<and>
     path prev (heap c) (tail c) (rev xs) \<and>
     (\<forall>i<length (htable c). path hnext (heap c) (htable c ! i) (bs i) \<and>
        distinct (bs i) \<and> set (bs i) = {a \<in> set xs. slot_of c a = Some i}) \<and>
     (\<forall>a. a \<in> set xs \<longleftrightarrow> (\<exists>i<length (htable c). a \<in> set (bs i))) \<and>
     distinct (map fst (entries c xs)) \<and>
     unat (size_c c) = length xs \<and>
     unat (size_c c) = (\<Sum>i<length (htable c). length (bs i)))"
proof -
  have f: "fresh_run empty2 [Put (alloc_at 1) ''a'' ''1'']"
    by (simp add: alloc_fresh_def alloc_at_def empty2_def split: option.splits)
  from quiescent_invariant [OF empty2_create f] empty2_create f show ?thesis by blast
qed

subsection \<open>The capacity bound (claim C1)\<close>

lemma put_inv_cases:
  assumes inv: "cache_inv c xs" and fresh: "alloc_fresh m c"
  shows "\<exists>r c' xs'. cache_put m (Some c) (Some k) (Some v) = Some (r, Some c') \<and>
           cache_inv c' xs' \<and> capacity c' = capacity c \<and>
           (set xs' = set xs \<or>
            (\<exists>n. n \<notin> set xs \<and> xs' = take (unat (capacity c)) (n # xs)))"
proof (cases "map_of (entries c xs) k")
  case None
  show ?thesis
  proof (cases "node_alloc_ok m")
    case False
    from cache_put_miss_fail [OF inv None False, of v] inv show ?thesis
      by (intro exI [of _ "- 1"] exI [of _ "rwlock_unlock (rwlock_wrlock c)"] exI [of _ xs]) simp
  next
    case True
    from cache_put_miss [OF inv None True fresh, of v] show ?thesis by blast
  qed
next
  case (Some v0)
  show ?thesis
  proof (cases "strdup_nv m")
    case False
    from cache_put_hit_fail [OF inv Some False, of v] inv show ?thesis
      by (intro exI [of _ "- 1"] exI [of _ "rwlock_unlock (rwlock_wrlock c)"] exI [of _ xs]) simp
  next
    case True
    from cache_put_hit [OF inv Some True, of v] obtain c' a where
      c': "cache_put m (Some c) (Some k) (Some v) = Some (0, Some c')" "a \<in> set xs"
        "cache_inv c' (a # remove1 a xs)" "capacity c' = capacity c"
      by blast
    from inv have "distinct xs" by (simp add: cache_inv_def dll_inv_def)
    with c'(2) have "set (a # remove1 a xs) = set xs" by auto
    with c' show ?thesis by blast
  qed
qed

lemma evicted_nodes:
  assumes d: "distinct xs" and n: "n \<notin> set xs" and l: "length xs \<le> cap"
  shows "card (set xs - set (take cap (n # xs))) = (if length xs = cap \<and> xs \<noteq> [] then 1 else 0)"
proof (cases "length xs = cap \<and> xs \<noteq> []")
  case True
  then obtain cap' where cap: "cap = Suc cap'" by (cases cap) auto
  from True obtain ys y where xs: "xs = ys @ [y]" by (cases xs rule: rev_cases) auto
  with d have y: "y \<notin> set ys" by simp
  from True xs have "take cap (n # xs) = n # ys" by (simp add: cap)
  then have "set xs - set (take cap (n # xs)) = {y}"
    using n y xs by auto
  with True show ?thesis by simp
next
  case False
  with l have "xs = [] \<or> length xs < cap" by auto
  then have "set xs \<subseteq> set (take cap (n # xs))"
    by (cases cap) auto
  then have "set xs - set (take cap (n # xs)) = {}" by auto
  then have "card (set xs - set (take cap (n # xs))) = 0" by simp
  with False show ?thesis by auto
qed

lemma run_inv:
  assumes "cache_inv c xs" and "fresh_run c ops"
  shows "\<exists>c' xs'. run c ops = Some c' \<and> cache_inv c' xs' \<and> capacity c' = capacity c"
proof -
  from assms(1) have "cache_rel c (entries c xs)" by (auto simp: cache_rel_def)
  from run_refines [OF this assms(2)] show ?thesis by (auto simp: cache_rel_def)
qed

text \<open>
  Claim C1. In every sequence of \<open>put\<close> calls on a created cache, each call returns,
  and before and after it the size is at most the capacity. A call frees at most one
  node; a call that allocates a new node when the size is at the capacity frees
  exactly one.
\<close>

theorem put_capacity_bound:
  assumes "cache_create m cap = Some c0" and "fresh_run c0 (put_ops ps)"
  shows "\<forall>n<length ps. \<exists>c c'.
           run c0 (put_ops (take n ps)) = Some c \<and>
           step c (put_ops ps ! n) = Some c' \<and>
           run c0 (put_ops (take (Suc n) ps)) = Some c' \<and>
           size_c c \<le> capacity c \<and> size_c c' \<le> capacity c' \<and> capacity c' = cap \<and>
           card (dom (heap c) - dom (heap c')) \<le> 1 \<and>
           (size_c c = capacity c \<and> \<not> dom (heap c') \<subseteq> dom (heap c) \<longrightarrow>
              card (dom (heap c) - dom (heap c')) = 1)"
proof (intro allI impI)
  fix n assume n: "n < length ps"
  let ?ops = "put_ops ps"
  have tk: "put_ops (take n ps) = take n ?ops" "put_ops (take (Suc n) ps) = take (Suc n) ?ops"
    by (simp_all add: put_ops_def take_map)
  from n have nl: "n < length ?ops" by (simp add: put_ops_def)
  have split: "?ops = take n ?ops @ ?ops ! n # drop (Suc n) ?ops"
    using nl by (simp add: id_take_nth_drop [symmetric])
  from assms(1) have inv0: "cache_inv c0 []" and cap0: "capacity c0 = cap"
    by (rule cache_create_inv, simp add: cache_create_Some)
  from assms(2) split have f1: "fresh_run c0 (take n ?ops)"
    by (metis fresh_run_append)
  from run_inv [OF inv0 f1] obtain c xs where
    c: "run c0 (take n ?ops) = Some c" "cache_inv c xs" "capacity c = capacity c0"
    by blast
  from assms(2) split c(1) have "fresh_run c (?ops ! n # drop (Suc n) ?ops)"
    by (metis fresh_run_append2)
  then have fo: "op_fresh c (?ops ! n)" by simp
  obtain a k v where p: "ps ! n = (a, k, v)" by (cases "ps ! n")
  with n have on: "?ops ! n = Put a k v" by (simp add: put_ops_def)
  with fo have fa: "alloc_fresh a c" by simp
  from put_inv_cases [OF c(2) fa, of k v] obtain r c' xs' where
    c': "cache_put a (Some c) (Some k) (Some v) = Some (r, Some c')" "cache_inv c' xs'"
        "capacity c' = capacity c"
        "set xs' = set xs \<or> (\<exists>n. n \<notin> set xs \<and> xs' = take (unat (capacity c)) (n # xs))"
    by blast
  from c'(1) on have st: "step c (?ops ! n) = Some c'" by simp
  have "take (Suc n) ?ops = take n ?ops @ [?ops ! n]"
    using nl by (rule take_Suc_conv_app_nth)
  with c(1) st have r2: "run c0 (take (Suc n) ?ops) = Some c'"
    by (simp add: run_append)
  from c(2) c'(2) have sz: "size_c c \<le> capacity c" "size_c c' \<le> capacity c'"
    and dom: "dom (heap c) = set xs" "dom (heap c') = set xs'"
    and d: "distinct xs" and l: "unat (size_c c) = length xs"
    by (simp_all add: cache_inv_def dll_inv_def)
  from sz(1) l have lx: "length xs \<le> unat (capacity c)" by (simp add: word_le_nat_alt)
  have cd: "card (dom (heap c) - dom (heap c')) \<le> 1 \<and>
           (size_c c = capacity c \<and> \<not> dom (heap c') \<subseteq> dom (heap c) \<longrightarrow>
              card (dom (heap c) - dom (heap c')) = 1)"
    using c'(4)
  proof
    assume "set xs' = set xs"
    with dom show ?thesis by simp
  next
    assume "\<exists>n. n \<notin> set xs \<and> xs' = take (unat (capacity c)) (n # xs)"
    then obtain b where b: "b \<notin> set xs" "xs' = take (unat (capacity c)) (b # xs)" by blast
    from c(2) have "capacity c \<noteq> 0" by (simp add: cache_inv_def sizes_inv_def)
    then have "0 < unat (capacity c)" by (simp add: unat_gt_0)
    with l have "size_c c = capacity c \<Longrightarrow> length xs = unat (capacity c) \<and> xs \<noteq> []"
      by auto
    with evicted_nodes [OF d b(1) lx] dom b(2) show ?thesis by auto
  qed
  from c(1) st r2 sz c'(3) c(3) cap0 cd tk show "\<exists>c c'.
           run c0 (put_ops (take n ps)) = Some c \<and>
           step c (put_ops ps ! n) = Some c' \<and>
           run c0 (put_ops (take (Suc n) ps)) = Some c' \<and>
           size_c c \<le> capacity c \<and> size_c c' \<le> capacity c' \<and> capacity c' = cap \<and>
           card (dom (heap c) - dom (heap c')) \<le> 1 \<and>
           (size_c c = capacity c \<and> \<not> dom (heap c') \<subseteq> dom (heap c) \<longrightarrow>
              card (dom (heap c) - dom (heap c')) = 1)"
    by (intro exI [of _ c] exI [of _ c']) simp
qed

theorem put_capacity_bound_witness:
  "cache_create ok_create 2 = Some empty2 \<and> fresh_run empty2 (put_ops abc_puts) \<and>
   run empty2 (put_ops (take 2 abc_puts)) = Some cache_ab \<and>
   run empty2 (put_ops abc_puts) = Some cache_bc \<and>
   size_c cache_ab = capacity cache_ab \<and> \<not> dom (heap cache_bc) \<subseteq> dom (heap cache_ab) \<and>
   size_c cache_bc \<le> capacity cache_bc \<and>
   card (dom (heap cache_ab) - dom (heap cache_bc)) = 1"
proof -
  have n: "2 < length abc_puts" by (simp add: abc_puts_def)
  have t: "take (Suc 2) abc_puts = abc_puts" by (simp add: abc_puts_def)
  from put_capacity_bound [OF empty2_create fresh_abc, rule_format, OF n] obtain c c' where
    c: "run empty2 (put_ops (take 2 abc_puts)) = Some c"
       "run empty2 (put_ops (take (Suc 2) abc_puts)) = Some c'"
       "size_c c' \<le> capacity c'"
       "size_c c = capacity c \<and> \<not> dom (heap c') \<subseteq> dom (heap c) \<longrightarrow>
              card (dom (heap c) - dom (heap c')) = 1"
    by blast
  from c(1) run_abc(2) have 1: "c = cache_ab" by simp
  from c(2) run_abc(3) t have 2: "c' = cache_bc" by simp
  have 3: "size_c cache_ab = capacity cache_ab" by (simp add: cache_ab_def)
  have 4: "\<not> dom (heap cache_bc) \<subseteq> dom (heap cache_ab)"
    by (simp add: cache_ab_def cache_bc_def)
  from c(3,4) 1 2 3 4 empty2_create fresh_abc run_abc(2,3) show ?thesis by blast
qed

subsection \<open>Eviction order (claim C2)\<close>

lemma take_append_take: "take n (xs @ take n ys) = take n (xs @ ys)"
  by (simp add: min_def)

lemma spec_puts_new:
  assumes cap: "0 < cap"
  shows "distinct (map (fst \<circ> snd) ps) \<Longrightarrow>
     \<forall>p\<in>set ps. node_alloc_ok (fst p) \<and> fst (snd p) \<notin> fst ` set es \<Longrightarrow>
     length es \<le> cap \<Longrightarrow>
     foldl (spec_step cap) es (put_ops ps) = take cap (rev (map snd ps) @ es)"
proof (induction ps arbitrary: es)
  case Nil
  then show ?case by (simp add: put_ops_def)
next
  case (Cons p ps)
  obtain a k v where p: "p = (a, k, v)" by (cases p)
  let ?es1 = "take cap ((k, v) # es)"
  from Cons.prems(2) p have s: "spec_step cap es (Put a k v) = ?es1"
    by (simp add: spec_put_def)
  have 1: "distinct (map (fst \<circ> snd) ps)" using Cons.prems(1) by (simp add: comp_def)
  have sub: "fst ` set ?es1 \<subseteq> insert k (fst ` set es)"
    by (auto dest!: in_set_takeD)
  have 2: "\<forall>q\<in>set ps. node_alloc_ok (fst q) \<and> fst (snd q) \<notin> fst ` set ?es1"
  proof
    fix q assume q: "q \<in> set ps"
    with Cons.prems(2) have ok: "node_alloc_ok (fst q)" "fst (snd q) \<notin> fst ` set es" by auto
    from q Cons.prems(1) p have "fst (snd q) \<noteq> k" by (auto simp: image_iff)
    with ok sub show "node_alloc_ok (fst q) \<and> fst (snd q) \<notin> fst ` set ?es1" by blast
  qed
  have 3: "length ?es1 \<le> cap" by simp
  from Cons.IH [OF 1 2 3] s p show ?case
    by (simp add: put_ops_def take_append_take)
qed

text \<open>
  Claim C2, as stated, fails: after \<^verbatim>\<open>put("a", "1")\<close>, \<^verbatim>\<open>put("b", "2")\<close>,
  \<^verbatim>\<open>put("c", "3")\<close> on a cache of capacity 2, the key \<^verbatim>\<open>"b"\<close> is still in the
  cache with the value \<^verbatim>\<open>"2"\<close>, and \<open>get\<close> of \<^verbatim>\<open>"b"\<close> returns \<^verbatim>\<open>NULL\<close>, not the
  stored value, when the \<^verbatim>\<open>strdup\<close> of the value fails.
\<close>

theorem get_retained_counterexample:
  "cache_create ok_create 2 = Some empty2 \<and>
   run empty2 (put_ops abc_puts) = Some cache_bc \<and>
   map_of (entries cache_bc [3, 2]) ''b'' = Some ''2'' \<and>
   map_option fst (cache_get False (Some cache_bc) (Some ''b'')) = Some None"
proof -
  from cache_bc_rel obtain xs where
    inv: "cache_inv cache_bc xs" and e: "entries cache_bc xs = [(''c'', ''3''), (''b'', ''2'')]"
    by (auto simp: cache_rel_def)
  have b: "map_of (entries cache_bc xs) ''b'' = Some ''2''" unfolding e by simp
  have e': "entries cache_bc [3, 2] = [(''c'', ''3''), (''b'', ''2'')]"
    by (simp add: entries_def kv_at_def cache_bc_def)
  have "map_option fst (cache_get False (Some cache_bc) (Some ''b'')) = Some None"
    using cache_get_hit [OF inv b, of False] by (auto simp: strdup_def)
  with empty2_create run_abc(3) e' show ?thesis by simp
qed

text \<open>
  Claim C2, amended. On a cache created with capacity \<open>N\<close>, \<open>N + 1\<close> \<open>put\<close> calls with
  distinct keys, each of which gets its node allocated, leave a cache in which
  \<open>get\<close> of the first key returns \<^verbatim>\<open>NULL\<close>, whatever the allocator answers, and
  \<open>get\<close> of each of the other \<open>N\<close> keys returns the value stored with it when the
  copy of the value can be allocated (the first argument of \<open>cache_get\<close> is \<open>True\<close>).
\<close>

theorem lru_evicts_first_inserted:
  assumes "cache_create m cap = Some c0"
    and "fresh_run c0 (put_ops ps)"
    and "\<forall>p\<in>set ps. node_alloc_ok (fst p)"
    and "distinct (map (fst \<circ> snd) ps)"
    and "length ps = unat cap + 1"
  shows "\<exists>c. run c0 (put_ops ps) = Some c \<and>
           (\<forall>ok. map_option fst (cache_get ok (Some c) (Some (fst (snd (hd ps))))) =
                   Some None) \<and>
           (\<forall>p\<in>set (tl ps).
              map_option fst (cache_get True (Some c) (Some (fst (snd p)))) =
                Some (Some (snd (snd p))))"
proof -
  from assms(1) have cap: "cap \<noteq> 0" and cap0: "capacity c0 = cap"
    by (simp_all add: cache_create_Some)
  then have c0: "0 < unat cap" by (simp add: unat_gt_0)
  from run_refines [OF cache_create_rel [OF assms(1)] assms(2)] cap0 obtain c where
    c: "run c0 (put_ops ps) = Some c" "cache_rel c (foldl (spec_step (unat cap)) [] (put_ops ps))"
    by auto
  let ?kvs = "map snd ps"
  from spec_puts_new [OF c0 assms(4), of "[]"] assms(3)
  have "foldl (spec_step (unat cap)) [] (put_ops ps) = take (unat cap) (rev ?kvs)"
    by simp
  also have "\<dots> = rev (tl ?kvs)"
    using assms(5) by (simp add: take_rev drop_Suc)
  finally have rel: "cache_rel c (rev (tl ?kvs))" using c(2) by simp
  from assms(5) obtain p ps' where ps: "ps = p # ps'" by (cases ps) auto
  from assms(4) ps have d: "fst (snd p) \<notin> fst ` set (map snd ps')"
      "distinct (map fst (rev (map snd ps')))"
    by (auto simp: image_iff distinct_rev rev_map [symmetric] comp_def)
  have 1: "map_option fst (cache_get ok (Some c) (Some (fst (snd (hd ps))))) = Some None" for ok
  proof -
    have "map_of (rev (tl ?kvs)) (fst (snd (hd ps))) = None"
      using ps d(1) by (simp add: map_of_eq_None_iff)
    with get_refines [OF rel, of ok "fst (snd (hd ps))"] show ?thesis
      by (auto simp: spec_get_def)
  qed
  have 2: "map_option fst (cache_get True (Some c) (Some (fst (snd q)))) =
             Some (Some (snd (snd q)))" if q: "q \<in> set (tl ps)" for q
  proof -
    from q ps have "(fst (snd q), snd (snd q)) \<in> set (rev (map snd ps'))" by auto
    with d(2) have "map_of (rev (map snd ps')) (fst (snd q)) = Some (snd (snd q))"
      by (rule map_of_is_SomeI)
    with lookup_rel [OF rel, of "fst (snd q)"] ps show ?thesis by (simp add: lookup_def)
  qed
  from c(1) 1 2 show ?thesis by blast
qed

theorem lru_evicts_first_inserted_witness:
  "cache_create ok_create 2 = Some empty2 \<and> fresh_run empty2 (put_ops abc_puts) \<and>
   distinct (map (fst \<circ> snd) abc_puts) \<and> length abc_puts = unat (2 :: size_t) + 1 \<and>
   run empty2 (put_ops abc_puts) = Some cache_bc \<and>
   map_option fst (cache_get True (Some cache_bc) (Some ''a'')) = Some None \<and>
   map_option fst (cache_get False (Some cache_bc) (Some ''a'')) = Some None \<and>
   map_option fst (cache_get True (Some cache_bc) (Some ''b'')) = Some (Some ''2'') \<and>
   map_option fst (cache_get True (Some cache_bc) (Some ''c'')) = Some (Some ''3'')"
proof -
  have a: "\<forall>p\<in>set abc_puts. node_alloc_ok (fst p)"
    by (simp add: abc_puts_def node_alloc_ok_def alloc_at_def)
  have d: "distinct (map (fst \<circ> snd) abc_puts)" by (simp add: abc_puts_def)
  have l: "length abc_puts = unat (2 :: size_t) + 1" by (simp add: abc_puts_def)
  from lru_evicts_first_inserted [OF empty2_create fresh_abc a d l] run_abc(3)
  have "(\<forall>ok. map_option fst (cache_get ok (Some cache_bc) (Some (fst (snd (hd abc_puts))))) =
                   Some None) \<and>
        (\<forall>p\<in>set (tl abc_puts).
           map_option fst (cache_get True (Some cache_bc) (Some (fst (snd p)))) =
             Some (Some (snd (snd p))))"
    by auto
  then have "map_option fst (cache_get True (Some cache_bc) (Some ''a'')) = Some None \<and>
   map_option fst (cache_get False (Some cache_bc) (Some ''a'')) = Some None \<and>
   map_option fst (cache_get True (Some cache_bc) (Some ''b'')) = Some (Some ''2'') \<and>
   map_option fst (cache_get True (Some cache_bc) (Some ''c'')) = Some (Some ''3'')"
    by (simp add: abc_puts_def)
  with empty2_create fresh_abc d l run_abc(3) show ?thesis by blast
qed

subsection \<open>Allocation failure in put (claim C6)\<close>

lemma lookup_cache_a: "lookup cache_a ''a'' = Some (Some ''1'')" "lookup cache_a ''b'' = Some None"
  using lookup_rel [OF cache_a_rel] by simp_all

text \<open>
  Claim C6. On a cache that satisfies the invariant, a \<open>put\<close> that cannot allocate
  what it needs (the copy of the value when the key is present; the node, the copy of
  the key or the copy of the value when it is absent) returns \<open>-1\<close>, and the cache
  after the call is the cache before it: capacity, size, buckets, head, tail and every
  node are the same, and only the record of the calls on the lock has grown.
\<close>

theorem put_alloc_failure_no_mutation:
  assumes "cache_inv c xs"
    and "if map_of (entries c xs) k = None then \<not> node_alloc_ok m else \<not> strdup_nv m"
  shows "cache_put m (Some c) (Some k) (Some v) =
           Some (- 1, Some (c\<lparr>lock := lock c @ [WrLock, Unlock]\<rparr>))"
proof (cases "map_of (entries c xs) k")
  case None
  with assms(2) have "\<not> node_alloc_ok m" by simp
  from cache_put_miss_fail [OF assms(1) None this, of v] show ?thesis
    by (simp add: rwlock_unlock_wrlock)
next
  case (Some v0)
  with assms(2) have "\<not> strdup_nv m" by simp
  from cache_put_hit_fail [OF assms(1) Some this, of v] show ?thesis
    by (simp add: rwlock_unlock_wrlock)
qed

theorem put_alloc_failure_no_mutation_witness:
  "cache_inv cache_a [1] \<and>
   map_of (entries cache_a [1]) ''a'' = Some ''1'' \<and> \<not> strdup_nv no_memory \<and>
   cache_put no_memory (Some cache_a) (Some ''a'') (Some ''2'') =
     Some (- 1, Some (cache_a\<lparr>lock := lock cache_a @ [WrLock, Unlock]\<rparr>)) \<and>
   map_of (entries cache_a [1]) ''b'' = None \<and> \<not> node_alloc_ok no_memory \<and>
   cache_put no_memory (Some cache_a) (Some ''b'') (Some ''2'') =
     Some (- 1, Some (cache_a\<lparr>lock := lock cache_a @ [WrLock, Unlock]\<rparr>))"
proof -
  from cache_a_inv have inv: "cache_inv cache_a [1]" and e: "entries cache_a [1] = [(''a'', ''1'')]"
    by simp_all
  have a: "map_of (entries cache_a [1]) ''a'' = Some ''1''" unfolding e by simp
  have b: "map_of (entries cache_a [1]) ''b'' = None" unfolding e by simp
  have m: "\<not> strdup_nv no_memory" "\<not> node_alloc_ok no_memory"
    by (simp_all add: no_memory_def node_alloc_ok_def)
  have 1: "cache_put no_memory (Some cache_a) (Some ''a'') (Some ''2'') =
     Some (- 1, Some (cache_a\<lparr>lock := lock cache_a @ [WrLock, Unlock]\<rparr>))"
    by (rule put_alloc_failure_no_mutation [OF inv]) (simp only: a m, simp)
  have 2: "cache_put no_memory (Some cache_a) (Some ''b'') (Some ''2'') =
     Some (- 1, Some (cache_a\<lparr>lock := lock cache_a @ [WrLock, Unlock]\<rparr>))"
    by (rule put_alloc_failure_no_mutation [OF inv]) (simp only: b m, simp)
  from inv a b m 1 2 show ?thesis by blast
qed

subsection \<open>Delete (claim C7)\<close>

lemma spec_step_no_key:
  assumes "k \<notin> fst ` set es" and "\<not> puts_key k x"
  shows "k \<notin> fst ` set (spec_step cap es x)"
proof (cases x)
  case (Put m k' v)
  with assms(2) have "k' \<noteq> k" by simp
  with assms(1) have "k \<notin> fst ` set (spec_touch k' v es)"
    "k \<notin> fst ` set (take cap ((k', v) # es))"
    by (auto simp: spec_touch_def dest!: in_set_takeD)
  with assms(1) Put show ?thesis by (simp add: spec_put_def)
next
  case (Get ok k')
  with assms(1) show ?thesis
    by (auto simp: spec_get_def spec_touch_def split: option.splits dest: map_of_Some_fst)
next
  case (Delete k')
  with assms(1) show ?thesis by (auto simp: spec_delete_def)
qed

lemma spec_run_no_key:
  "k \<notin> fst ` set es \<Longrightarrow> \<forall>x\<in>set ops. \<not> puts_key k x \<Longrightarrow>
   k \<notin> fst ` set (foldl (spec_step cap) es ops)"
  by (induction ops arbitrary: es) (simp_all add: spec_step_no_key)

text \<open>
  Claim C7. On a cache that satisfies the invariant, with recency list \<open>xs\<close>:
  \<open>cache_delete\<close> of an absent key returns 1, a result that is neither 0 (success) nor
  the \<open>-1\<close> returned for a null argument, and leaves the cache as it was; \<open>cache_delete\<close>
  of a present key returns 0, frees the node \<open>a\<close> of the key and leaves a cache whose
  recency list and bucket chains hold \<open>xs\<close> without \<open>a\<close>, with the size decremented.
  After it \<open>get\<close> of the key returns \<^verbatim>\<open>NULL\<close>, and still does after any further
  operations among which there is no \<open>put\<close> of this key.
\<close>

theorem delete_spec:
  assumes "cache_inv c xs"
  shows "cache_delete None (Some k) = Some (- 1, None) \<and>
     (map_of (entries c xs) k = None \<longrightarrow>
        cache_delete (Some c) (Some k) =
          Some (1, Some (c\<lparr>lock := lock c @ [WrLock, Unlock]\<rparr>))) \<and>
     (map_of (entries c xs) k \<noteq> None \<longrightarrow>
        (\<exists>c' a. cache_delete (Some c) (Some k) = Some (0, Some c') \<and>
           a \<in> set xs \<and> has_key (heap c) k a \<and> heap c' a = None \<and>
           cache_inv c' (remove1 a xs) \<and>
           entries c' (remove1 a xs) = filter (\<lambda>e. fst e \<noteq> k) (entries c xs) \<and>
           size_c c' = size_c c - 1 \<and> unat (size_c c') = length xs - 1 \<and>
           lookup c' k = Some None \<and>
           (\<forall>ops. (\<forall>x\<in>set ops. \<not> puts_key k x) \<longrightarrow> fresh_run c' ops \<longrightarrow>
              (\<exists>c''. run c' ops = Some c'' \<and> lookup c'' k = Some None))))"
proof (intro conjI impI)
  show "cache_delete None (Some k) = Some (- 1, None)" by (simp add: cache_delete_def)
next
  assume "map_of (entries c xs) k = None"
  from cache_delete_miss [OF assms this] show "cache_delete (Some c) (Some k) =
          Some (1, Some (c\<lparr>lock := lock c @ [WrLock, Unlock]\<rparr>))"
    by (simp add: rwlock_unlock_wrlock)
next
  assume "map_of (entries c xs) k \<noteq> None"
  then obtain v where v: "map_of (entries c xs) k = Some v" by auto
  from cache_delete_hit [OF assms v] obtain c' a where
    c': "cache_delete (Some c) (Some k) = Some (0, Some c')" "a \<in> set xs"
        "has_key (heap c) k a" "heap c' a = None" "cache_inv c' (remove1 a xs)"
        "entries c' (remove1 a xs) = spec_delete k (entries c xs)"
        "size_c c' = size_c c - 1"
    by blast
  let ?es = "filter (\<lambda>e. fst e \<noteq> k) (entries c xs)"
  from c'(5,6) have rel: "cache_rel c' ?es" by (auto simp: cache_rel_def spec_delete_def)
  have kn: "k \<notin> fst ` set ?es" by auto
  from c'(5) c'(2) have sz: "unat (size_c c') = length xs - 1"
    by (simp add: cache_inv_def length_remove1)
  from lookup_rel [OF rel, of k] kn have l: "lookup c' k = Some None"
    by (simp add: map_of_eq_None_iff)
  have later: "\<exists>c''. run c' ops = Some c'' \<and> lookup c'' k = Some None"
    if np: "\<forall>x\<in>set ops. \<not> puts_key k x" and f: "fresh_run c' ops" for ops
  proof -
    from run_refines [OF rel f] obtain c'' where
      c'': "run c' ops = Some c''"
        "cache_rel c'' (foldl (spec_step (unat (capacity c'))) ?es ops)"
      by blast
    from lookup_rel [OF c''(2), of k] spec_run_no_key [OF kn np, of "unat (capacity c')"]
    have "lookup c'' k = Some None" by (simp add: map_of_eq_None_iff)
    with c''(1) show ?thesis by blast
  qed
  from c' sz l later show "\<exists>c' a. cache_delete (Some c) (Some k) = Some (0, Some c') \<and>
           a \<in> set xs \<and> has_key (heap c) k a \<and> heap c' a = None \<and>
           cache_inv c' (remove1 a xs) \<and>
           entries c' (remove1 a xs) = filter (\<lambda>e. fst e \<noteq> k) (entries c xs) \<and>
           size_c c' = size_c c - 1 \<and> unat (size_c c') = length xs - 1 \<and>
           lookup c' k = Some None \<and>
           (\<forall>ops. (\<forall>x\<in>set ops. \<not> puts_key k x) \<longrightarrow> fresh_run c' ops \<longrightarrow>
              (\<exists>c''. run c' ops = Some c'' \<and> lookup c'' k = Some None))"
    by (intro exI [of _ c'] exI [of _ a]) (simp add: spec_delete_def)
qed

lemma delete_a_cache_a:
  "cache_delete (Some cache_a) (Some ''a'') =
     Some (0, Some (empty2\<lparr>lock := [Init, WrLock, Unlock, WrLock, Unlock]\<rparr>))"
  by (simp add: cache_delete_def cache_a_def empty2_def eval_defs fun_eq_iff)

theorem delete_spec_witness:
  "cache_inv cache_a [1] \<and>
   map_of (entries cache_a [1]) ''b'' = None \<and>
   cache_delete (Some cache_a) (Some ''b'') =
     Some (1, Some (cache_a\<lparr>lock := lock cache_a @ [WrLock, Unlock]\<rparr>)) \<and>
   map_of (entries cache_a [1]) ''a'' \<noteq> None \<and>
   cache_delete (Some cache_a) (Some ''a'') =
     Some (0, Some (empty2\<lparr>lock := [Init, WrLock, Unlock, WrLock, Unlock]\<rparr>)) \<and>
   lookup (empty2\<lparr>lock := [Init, WrLock, Unlock, WrLock, Unlock]\<rparr>) ''a'' = Some None \<and>
   fresh_run (empty2\<lparr>lock := [Init, WrLock, Unlock, WrLock, Unlock]\<rparr>)
     [Delete ''a'', Get True ''b''] \<and>
   (\<exists>c''. run (empty2\<lparr>lock := [Init, WrLock, Unlock, WrLock, Unlock]\<rparr>)
            [Delete ''a'', Get True ''b''] = Some c'' \<and> lookup c'' ''a'' = Some None)"
proof -
  let ?d = "empty2\<lparr>lock := [Init, WrLock, Unlock, WrLock, Unlock]\<rparr>"
  from cache_a_inv have inv: "cache_inv cache_a [1]" and e: "entries cache_a [1] = [(''a'', ''1'')]"
    by simp_all
  have a: "map_of (entries cache_a [1]) ''a'' \<noteq> None" unfolding e by simp
  have b: "map_of (entries cache_a [1]) ''b'' = None" unfolding e by simp
  have f: "fresh_run ?d [Delete ''a'', Get True ''b'']"
    by (simp split: option.splits)
  have n: "\<forall>x\<in>set [Delete ''a'', Get True ''b'']. \<not> puts_key ''a'' x" by simp
  from delete_spec [OF inv, of "''b''"] b
  have 1: "cache_delete (Some cache_a) (Some ''b'') =
     Some (1, Some (cache_a\<lparr>lock := lock cache_a @ [WrLock, Unlock]\<rparr>))"
    by blast
  from delete_spec [OF inv, of "''a''"] a delete_a_cache_a
  have 2: "lookup ?d ''a'' = Some None"
    and 3: "\<forall>ops. (\<forall>x\<in>set ops. \<not> puts_key ''a'' x) \<longrightarrow> fresh_run ?d ops \<longrightarrow>
              (\<exists>c''. run ?d ops = Some c'' \<and> lookup c'' ''a'' = Some None)"
    by auto
  from 3 n f have 4: "\<exists>c''. run ?d [Delete ''a'', Get True ''b''] = Some c'' \<and>
      lookup c'' ''a'' = Some None"
    by blast
  from inv a b 1 2 4 f delete_a_cache_a show ?thesis by blast
qed

subsection \<open>Put of a present key (claim C4)\<close>

text \<open>
  Claim C4, as stated, fails: with \<^verbatim>\<open>"a"\<close> in the cache, \<^verbatim>\<open>put("a", "2")\<close> returns
  \<open>-1\<close> and replaces nothing when \<^verbatim>\<open>strdup(value)\<close> returns \<^verbatim>\<open>NULL\<close>.
\<close>

theorem put_existing_counterexample:
  "lookup cache_a ''a'' = Some (Some ''1'') \<and>
   cache_put no_memory (Some cache_a) (Some ''a'') (Some ''2'') =
     Some (- 1, Some (rwlock_unlock (rwlock_wrlock cache_a))) \<and>
   lookup (rwlock_unlock (rwlock_wrlock cache_a)) ''a'' = Some (Some ''1'')"
proof -
  from cache_a_inv have inv: "cache_inv cache_a [1]" and e: "entries cache_a [1] = [(''a'', ''1'')]"
    by simp_all
  have a: "map_of (entries cache_a [1]) ''a'' = Some ''1''" unfolding e by simp
  have m: "\<not> strdup_nv no_memory" by (simp add: no_memory_def)
  have "cache_rel (rwlock_unlock (rwlock_wrlock cache_a)) [(''a'', ''1'')]"
    using inv e by (auto simp: cache_rel_def)
  from lookup_rel [OF this, of "''a''"] cache_put_hit_fail [OF inv a m, of "''2''"] lookup_cache_a(1)
  show ?thesis by simp
qed

text \<open>
  Claim C4, amended. On a cache that satisfies the invariant, \<open>put\<close> of a key that is
  present, when the copy of the new value can be allocated, returns 0, stores the new
  value in the node of the key and makes this node the head of the recency list, the
  other nodes keeping their order; the size and the set of allocated nodes are
  unchanged (nothing is evicted), and \<open>get\<close> of the key then returns the new value.
  The call passes the block of the old value to \<^verbatim>\<open>free\<close> and makes the block of the
  copy the value of the node. When the storage of the strings is in order before the
  call (as it is from \<open>cache_create\<close> on, by \<open>created_storage_inv\<close>) and \<^verbatim>\<open>strdup\<close>
  returns a block that is not allocated, the block of the old value is allocated before
  the call and is not after it, every other block that was allocated still is, and the
  storage of the strings is in order again.
\<close>

theorem put_existing_key:
  assumes "cache_inv c xs" and "map_of (entries c xs) k = Some v0" and "strdup_nv m"
  shows "\<exists>c' a nd nd'. cache_put m (Some c) (Some k) (Some v) = Some (0, Some c') \<and>
           a \<in> set xs \<and> cache_inv c' (a # remove1 a xs) \<and> head c' = Some a \<and>
           entries c' (a # remove1 a xs) = (k, v) # filter (\<lambda>e. fst e \<noteq> k) (entries c xs) \<and>
           size_c c' = size_c c \<and> dom (heap c') = dom (heap c) \<and>
           lookup c' k = Some (Some v) \<and>
           heap c a = Some nd \<and> key nd = k \<and> value_n nd = v0 \<and>
           heap c' a = Some nd' \<and> key nd' = k \<and> value_n nd' = v \<and>
           key_p nd' = key_p nd \<and> value_p nd' = nv_block m \<and>
           strings c' = insert (nv_block m) (strings c) - {value_p nd} \<and>
           (storage_inv c xs \<and> nv_block m \<notin> strings c \<longrightarrow>
              value_p nd \<in> strings c \<and> value_p nd \<notin> strings c' \<and>
              nv_block m \<in> strings c' \<and>
              strings c' - {nv_block m} = strings c - {value_p nd} \<and>
              storage_inv c' (a # remove1 a xs))"
proof -
  from cache_put_hit [OF assms, of v] obtain c' a nd where
    c': "cache_put m (Some c) (Some k) (Some v) = Some (0, Some c')" "a \<in> set xs"
        "cache_inv c' (a # remove1 a xs)"
        "entries c' (a # remove1 a xs) = spec_touch k v (entries c xs)"
        "size_c c' = size_c c" and
    s: "heap c a = Some nd" "key nd = k" "value_n nd = v0"
       "strings c' = insert (nv_block m) (strings c) - {value_p nd}"
       "blocks_at c' a = [key_p nd, nv_block m]"
       "\<forall>b. b \<noteq> a \<longrightarrow> blocks_at c' b = blocks_at c b"
    by blast
  from c'(3) have h: "head c' = Some a" and d': "dom (heap c') = set (a # remove1 a xs)"
    by (simp_all add: cache_inv_def dll_inv_links)
  from assms(1) have d: "dom (heap c) = set xs" "distinct xs"
    by (simp_all add: cache_inv_def dll_inv_def)
  with c'(2) d' have dom: "dom (heap c') = dom (heap c)" by auto
  from c'(3,4) have "cache_rel c' (spec_touch k v (entries c xs))" by (auto simp: cache_rel_def)
  from lookup_rel [OF this, of k] have l: "lookup c' k = Some (Some v)"
    by (simp add: spec_touch_def)
  from s(5) obtain nd' where nd': "heap c' a = Some nd'" "key_p nd' = key_p nd"
      "value_p nd' = nv_block m"
    by (cases "heap c' a") (auto simp: blocks_at_def)
  from c'(4) nd'(1) have kv: "key nd' = k" "value_n nd' = v"
    by (simp_all add: entries_def spec_touch_def kv_at_def)
  have st: "value_p nd \<in> strings c \<and> value_p nd \<notin> strings c' \<and>
            nv_block m \<in> strings c' \<and>
            strings c' - {nv_block m} = strings c - {value_p nd} \<and>
            storage_inv c' (a # remove1 a xs)"
    if si: "storage_inv c xs" and fr: "nv_block m \<notin> strings c"
    using storage_inv_replace [OF si c'(2) d(2) s(1) fr s(4,5)] s(6) by blast
  from c' h dom l s(1-4) nd' kv st show ?thesis
    by (intro exI [of _ c'] exI [of _ a] exI [of _ nd] exI [of _ nd'])
       (simp add: spec_touch_def)
qed

theorem put_existing_key_witness:
  "cache_inv cache_a [1] \<and> map_of (entries cache_a [1]) ''a'' = Some ''1'' \<and>
   strdup_nv (alloc_at 2) \<and> storage_inv cache_a [1] \<and>
   nv_block (alloc_at 2) \<notin> strings cache_a \<and>
   (\<exists>c'. cache_put (alloc_at 2) (Some cache_a) (Some ''a'') (Some ''2'') = Some (0, Some c') \<and>
      head c' = Some 1 \<and> size_c c' = size_c cache_a \<and> dom (heap c') = dom (heap cache_a) \<and>
      lookup c' ''a'' = Some (Some ''2'') \<and>
      3 \<in> strings cache_a \<and> 3 \<notin> strings c' \<and> 5 \<in> strings c' \<and>
      strings c' - {5} = strings cache_a - {3} \<and> storage_inv c' [1])"
proof -
  from cache_a_inv have inv: "cache_inv cache_a [1]" and e: "entries cache_a [1] = [(''a'', ''1'')]"
    by simp_all
  have a: "map_of (entries cache_a [1]) ''a'' = Some ''1''" unfolding e by simp
  have m: "strdup_nv (alloc_at 2)" by (simp add: alloc_at_def)
  have si: "storage_inv cache_a [1]"
    by (simp add: storage_inv_def owned_def blocks_at_def cache_a_def)
  have nv: "nv_block (alloc_at 2) = 5" by (simp add: alloc_at_def)
  have fr: "nv_block (alloc_at 2) \<notin> strings cache_a" by (simp add: alloc_at_def cache_a_def)
  from put_existing_key [OF inv a m, of "''2''"] obtain c' b nd nd' where
    c': "cache_put (alloc_at 2) (Some cache_a) (Some ''a'') (Some ''2'') = Some (0, Some c')"
      "b \<in> set [1]" "head c' = Some b" "size_c c' = size_c cache_a"
      "dom (heap c') = dom (heap cache_a)" "lookup c' ''a'' = Some (Some ''2'')"
      "heap cache_a b = Some nd" and
    st: "storage_inv cache_a [1] \<and> nv_block (alloc_at 2) \<notin> strings cache_a \<longrightarrow>
          value_p nd \<in> strings cache_a \<and> value_p nd \<notin> strings c' \<and>
          nv_block (alloc_at 2) \<in> strings c' \<and>
          strings c' - {nv_block (alloc_at 2)} = strings cache_a - {value_p nd} \<and>
          storage_inv c' (b # remove1 b [1])"
    by blast
  from c'(2) have b: "b = 1" by simp
  from c'(7) have v: "value_p nd = 3" unfolding b by (auto simp: cache_a_def)
  from st si fr have "3 \<in> strings cache_a \<and> 3 \<notin> strings c' \<and> 5 \<in> strings c' \<and>
      strings c' - {5} = strings cache_a - {3} \<and> storage_inv c' [1]"
    unfolding b v nv by simp
  with c'(1,3-6) inv a m si fr show ?thesis unfolding b by blast
qed

subsection \<open>Get (claim C3)\<close>

lemma filter_take_ex: "\<exists>m. filter P (take n xs) = take m (filter P xs)"
proof (induction xs arbitrary: n)
  case Nil
  then show ?case by simp
next
  case (Cons x xs)
  show ?case
  proof (cases n)
    case 0
    then show ?thesis by (intro exI [of _ 0]) simp
  next
    case (Suc n')
    from Cons.IH [of n'] obtain m where m: "filter P (take n' xs) = take m (filter P xs)" by blast
    show ?thesis
    proof (cases "P x")
      case True
      with m Suc show ?thesis by (intro exI [of _ "Suc m"]) simp
    next
      case False
      with m Suc show ?thesis by (intro exI [of _ m]) simp
    qed
  qed
qed

lemma filter_other_key:
  "k' \<notin> K \<Longrightarrow> filter (\<lambda>e. fst e \<in> K) (filter (\<lambda>e. fst e \<noteq> k') es) = filter (\<lambda>e. fst e \<in> K) es"
  by (induction es) auto

lemma spec_step_old_prefix:
  assumes k': "op_key x \<notin> K" and p: "\<exists>j. filter (\<lambda>e. fst e \<in> K) es = take j es0"
  shows "\<exists>j. filter (\<lambda>e. fst e \<in> K) (spec_step cap es x) = take j es0"
proof -
  have touch: "\<exists>j. filter (\<lambda>e. fst e \<in> K) (spec_touch k1 v es) = take j es0" if "k1 \<notin> K" for k1 v
  proof -
    from that have "filter (\<lambda>e. fst e \<in> K) (spec_touch k1 v es) = filter (\<lambda>e. fst e \<in> K) es"
      by (simp add: spec_touch_def filter_other_key del: filter_filter)
    with p show ?thesis by simp
  qed
  have ins: "\<exists>j. filter (\<lambda>e. fst e \<in> K) (take cap ((k1, v) # es)) = take j es0"
    if "k1 \<notin> K" for k1 v
  proof -
    from filter_take_ex [of "\<lambda>e. fst e \<in> K" cap "(k1, v) # es"] obtain m where
      "filter (\<lambda>e. fst e \<in> K) (take cap ((k1, v) # es)) =
         take m (filter (\<lambda>e. fst e \<in> K) ((k1, v) # es))"
      by blast
    also have "filter (\<lambda>e. fst e \<in> K) ((k1, v) # es) = filter (\<lambda>e. fst e \<in> K) es"
      using that by simp
    finally show ?thesis using p by (auto simp: min_def)
  qed
  show ?thesis
  proof (cases x)
    case (Put m k1 v)
    with k' have "k1 \<notin> K" by simp
    from touch [OF this] ins [OF this] p Put show ?thesis by (simp add: spec_put_def)
  next
    case (Get ok k1)
    with k' have "k1 \<notin> K" by simp
    from touch [OF this] p Get show ?thesis by (simp add: spec_get_def split: option.splits)
  next
    case (Delete k1)
    with k' have "k1 \<notin> K" by simp
    then have "filter (\<lambda>e. fst e \<in> K) (spec_delete k1 es) = filter (\<lambda>e. fst e \<in> K) es"
      by (simp add: spec_delete_def filter_other_key del: filter_filter)
    with p Delete show ?thesis by simp
  qed
qed

lemma spec_run_old_prefix:
  "\<forall>x\<in>set ops. op_key x \<notin> K \<Longrightarrow> \<exists>j. filter (\<lambda>e. fst e \<in> K) es = take j es0 \<Longrightarrow>
   \<exists>j. filter (\<lambda>e. fst e \<in> K) (foldl (spec_step cap) es ops) = take j es0"
  by (induction ops arbitrary: es) (simp_all add: spec_step_old_prefix)

lemma promoted_survives:
  assumes ops: "\<forall>x\<in>set ops. op_key x \<notin> fst ` set es0" and es0: "es0 = (k, v) # rest"
    and k': "k' \<in> fst ` set es0" "k' \<in> fst ` set (foldl (spec_step cap) es0 ops)"
  shows "(k, v) \<in> set (foldl (spec_step cap) es0 ops)"
proof -
  let ?K = "fst ` set es0"
  let ?fin = "foldl (spec_step cap) es0 ops"
  have "filter (\<lambda>e. fst e \<in> ?K) es0 = take (length es0) es0" by (simp add: filter_id_conv)
  then have "\<exists>j. filter (\<lambda>e. fst e \<in> ?K) es0 = take j es0" by blast
  from spec_run_old_prefix [OF ops this] obtain j where
    j: "filter (\<lambda>e. fst e \<in> ?K) ?fin = take j es0" by blast
  from k'(2) obtain e where "e \<in> set ?fin" "fst e = k'" by auto
  with k'(1) have "e \<in> set ?fin" "fst e \<in> ?K" by simp_all
  then have "e \<in> set (filter (\<lambda>e. fst e \<in> ?K) ?fin)" by simp
  with j have "e \<in> set (take j es0)" by simp
  then have "j \<noteq> 0" by (cases j) auto
  then have "(k, v) \<in> set (take j es0)" using es0 by (cases j) auto
  with j have "(k, v) \<in> set (filter (\<lambda>e. fst e \<in> ?K) ?fin)" by simp
  then show ?thesis by simp
qed

lemma cache_rel_distinct: "cache_rel c es \<Longrightarrow> distinct (map fst es)"
  by (auto simp: cache_rel_def cache_inv_def)

text \<open>
  Claim C3, as stated, fails: with \<^verbatim>\<open>"a"\<close> in the cache, \<open>get\<close> of \<^verbatim>\<open>"a"\<close> returns
  \<^verbatim>\<open>NULL\<close>, not a copy of the value, when the \<^verbatim>\<open>strdup\<close> of the value fails.
\<close>

theorem get_copy_counterexample:
  "lookup cache_a ''a'' = Some (Some ''1'') \<and>
   map_option fst (cache_get False (Some cache_a) (Some ''a'')) = Some None"
proof -
  from cache_a_inv have inv: "cache_inv cache_a [1]" and e: "entries cache_a [1] = [(''a'', ''1'')]"
    by simp_all
  have a: "map_of (entries cache_a [1]) ''a'' = Some ''1''" unfolding e by simp
  from cache_get_hit [OF inv a, of False] lookup_cache_a(1) show ?thesis
    by (auto simp: strdup_def)
qed

text \<open>
  Claim C3, amended. On a cache that satisfies the invariant: \<open>get\<close> of a key that is
  present with value \<open>v\<close>, when the copy of the value can be allocated, returns \<open>v\<close>
  and makes the node of the key the head of the recency list, the other nodes keeping
  their order and no size or node set changing. From then on, through any operations
  on keys that were not in the cache at the time of the \<open>get\<close>, the key stays in the
  cache with its value as long as any key that was in the cache then is still in it:
  it is the last of them to be evicted. \<open>get\<close> of an absent key returns \<^verbatim>\<open>NULL\<close>
  and leaves the cache as it was.
\<close>

theorem get_spec:
  assumes "cache_inv c xs"
  shows "(map_of (entries c xs) k = None \<longrightarrow>
            cache_get ok (Some c) (Some k) =
              Some (None, Some (c\<lparr>lock := lock c @ [RdLock, Unlock]\<rparr>))) \<and>
         (\<forall>v. map_of (entries c xs) k = Some v \<longrightarrow>
            (\<exists>c' a. cache_get True (Some c) (Some k) = Some (Some v, Some c') \<and>
               a \<in> set xs \<and> cache_inv c' (a # remove1 a xs) \<and> head c' = Some a \<and>
               entries c' (a # remove1 a xs) =
                 (k, v) # filter (\<lambda>e. fst e \<noteq> k) (entries c xs) \<and>
               size_c c' = size_c c \<and> capacity c' = capacity c \<and>
               dom (heap c') = dom (heap c) \<and>
               (\<forall>ops. (\<forall>x\<in>set ops. op_key x \<notin> fst ` set (entries c xs)) \<longrightarrow>
                  fresh_run c' ops \<longrightarrow>
                  (\<exists>c''. run c' ops = Some c'' \<and>
                     (\<forall>k'\<in>fst ` set (entries c xs).
                        lookup c'' k' \<noteq> Some None \<longrightarrow> lookup c'' k = Some (Some v))))))"
proof (intro conjI impI allI)
  assume "map_of (entries c xs) k = None"
  from cache_get_miss [OF assms this, of ok] show "cache_get ok (Some c) (Some k) =
              Some (None, Some (c\<lparr>lock := lock c @ [RdLock, Unlock]\<rparr>))"
    by (simp add: rwlock_unlock_rdlock)
next
  fix v assume v: "map_of (entries c xs) k = Some v"
  let ?old = "entries c xs"
  let ?new = "(k, v) # filter (\<lambda>e. fst e \<noteq> k) ?old"
  from cache_get_hit [OF assms v, of True] obtain c' a where
    c': "cache_get True (Some c) (Some k) = Some (Some v, Some c')" "a \<in> set xs"
        "cache_inv c' (a # remove1 a xs)"
        "entries c' (a # remove1 a xs) = spec_touch k v ?old"
        "size_c c' = size_c c" "capacity c' = capacity c"
    by (auto simp: strdup_def)
  from c'(3) have h: "head c' = Some a" and d': "dom (heap c') = set (a # remove1 a xs)"
    by (simp_all add: cache_inv_def dll_inv_links)
  from assms have d: "dom (heap c) = set xs" "distinct xs"
    by (simp_all add: cache_inv_def dll_inv_def)
  with c'(2) d' have dom: "dom (heap c') = dom (heap c)" by auto
  from c'(3,4) have rel: "cache_rel c' ?new" by (auto simp: cache_rel_def spec_touch_def)
  have keys: "fst ` set ?new = fst ` set ?old"
    using map_of_Some_fst [OF v] by (auto simp: image_iff)
  have later: "\<exists>c''. run c' ops = Some c'' \<and>
                     (\<forall>k'\<in>fst ` set ?old.
                        lookup c'' k' \<noteq> Some None \<longrightarrow> lookup c'' k = Some (Some v))"
    if o: "\<forall>x\<in>set ops. op_key x \<notin> fst ` set ?old" and f: "fresh_run c' ops" for ops
  proof -
    let ?fin = "foldl (spec_step (unat (capacity c'))) ?new ops"
    from run_refines [OF rel f] obtain c'' where
      c'': "run c' ops = Some c''" "cache_rel c'' ?fin"
      by blast
    have "lookup c'' k = Some (Some v)"
      if k': "k' \<in> fst ` set ?old" "lookup c'' k' \<noteq> Some None" for k'
    proof -
      from k'(2) lookup_rel [OF c''(2), of k'] have "k' \<in> fst ` set ?fin"
        by (auto simp: map_of_eq_None_iff)
      moreover from o keys have "\<forall>x\<in>set ops. op_key x \<notin> fst ` set ?new" by simp
      moreover from k'(1) keys have "k' \<in> fst ` set ?new" by simp
      ultimately have "(k, v) \<in> set ?fin"
        by (intro promoted_survives [OF _ refl, of ops _ _ _ k']) blast+
      with cache_rel_distinct [OF c''(2)] have "map_of ?fin k = Some v"
        by (rule map_of_is_SomeI)
      with lookup_rel [OF c''(2), of k] show ?thesis by simp
    qed
    with c''(1) show ?thesis by blast
  qed
  from c' h dom later show "\<exists>c' a. cache_get True (Some c) (Some k) = Some (Some v, Some c') \<and>
               a \<in> set xs \<and> cache_inv c' (a # remove1 a xs) \<and> head c' = Some a \<and>
               entries c' (a # remove1 a xs) =
                 (k, v) # filter (\<lambda>e. fst e \<noteq> k) (entries c xs) \<and>
               size_c c' = size_c c \<and> capacity c' = capacity c \<and>
               dom (heap c') = dom (heap c) \<and>
               (\<forall>ops. (\<forall>x\<in>set ops. op_key x \<notin> fst ` set (entries c xs)) \<longrightarrow>
                  fresh_run c' ops \<longrightarrow>
                  (\<exists>c''. run c' ops = Some c'' \<and>
                     (\<forall>k'\<in>fst ` set (entries c xs).
                        lookup c'' k' \<noteq> Some None \<longrightarrow> lookup c'' k = Some (Some v))))"
    by (intro exI [of _ c'] exI [of _ a]) (simp add: spec_touch_def)
qed

theorem get_spec_witness:
  "cache_inv cache_ab [2, 1] \<and>
   map_of (entries cache_ab [2, 1]) ''z'' = None \<and>
   cache_get True (Some cache_ab) (Some ''z'') =
     Some (None, Some (cache_ab\<lparr>lock := lock cache_ab @ [RdLock, Unlock]\<rparr>)) \<and>
   map_of (entries cache_ab [2, 1]) ''a'' = Some ''1'' \<and>
   (\<exists>c'. cache_get True (Some cache_ab) (Some ''a'') = Some (Some ''1'', Some c') \<and>
      size_c c' = size_c cache_ab \<and>
      fresh_run c' [Put (alloc_at 3) ''c'' ''3''] \<and>
      (\<exists>c''. run c' [Put (alloc_at 3) ''c'' ''3''] = Some c'' \<and>
         lookup c'' ''a'' = Some (Some ''1'') \<and> lookup c'' ''b'' = Some None \<and>
         lookup c'' ''c'' = Some (Some ''3'')))"
proof -
  from cache_ab_inv have inv: "cache_inv cache_ab [2, 1]"
    and e: "entries cache_ab [2, 1] = [(''b'', ''2''), (''a'', ''1'')]"
    by simp_all
  have z: "map_of (entries cache_ab [2, 1]) ''z'' = None" unfolding e by simp
  have a: "map_of (entries cache_ab [2, 1]) ''a'' = Some ''1''" unfolding e by simp
  from get_spec [OF inv, of "''z''" True] z
  have 1: "cache_get True (Some cache_ab) (Some ''z'') =
     Some (None, Some (cache_ab\<lparr>lock := lock cache_ab @ [RdLock, Unlock]\<rparr>))"
    by blast
  from get_spec [OF inv, of "''a''" True] a obtain c' b where
    c': "cache_get True (Some cache_ab) (Some ''a'') = Some (Some ''1'', Some c')"
        "cache_inv c' (b # remove1 b [2, 1])"
        "entries c' (b # remove1 b [2, 1]) =
           (''a'', ''1'') # filter (\<lambda>e. fst e \<noteq> ''a'') (entries cache_ab [2, 1])"
        "size_c c' = size_c cache_ab" "capacity c' = capacity cache_ab"
        "dom (heap c') = dom (heap cache_ab)"
    by blast
  from c'(2,3) have rel: "cache_rel c' [(''a'', ''1''), (''b'', ''2'')]"
    unfolding e by (auto simp: cache_rel_def)
  have "3 \<notin> dom (heap cache_ab)" by (simp add: cache_ab_def)
  with c'(6) have "heap c' 3 = None" by blast
  then have f: "fresh_run c' [Put (alloc_at 3) ''c'' ''3'']"
    by (simp add: alloc_fresh_def alloc_at_def split: option.splits)
  have cap: "unat (capacity c') = 2" by (simp add: c'(5) cache_ab_def)
  have m: "node_alloc_ok (alloc_at 3)" by (simp add: node_alloc_ok_def alloc_at_def)
  from run_refines [OF rel f] cap m obtain c'' where
    c'': "run c' [Put (alloc_at 3) ''c'' ''3''] = Some c''"
         "cache_rel c'' [(''c'', ''3''), (''a'', ''1'')]"
    by (auto simp: spec_put_def)
  from lookup_rel [OF c''(2)] have "lookup c'' ''a'' = Some (Some ''1'')"
    "lookup c'' ''b'' = Some None" "lookup c'' ''c'' = Some (Some ''3'')"
    by simp_all
  with inv z a 1 c'(1,4) f c''(1) show ?thesis by blast
qed

subsection \<open>The two critical sections of get (claim C5)\<close>

lemma get_lock_calls_inv:
  assumes inv: "cache_inv c xs"
  shows "get_lock_calls ok c k =
           Some (if map_of (entries c xs) k = None then [RdLock, Unlock]
                 else [RdLock, Unlock, WrLock, Unlock])"
proof (cases "map_of (entries c xs) k")
  case None
  from cache_get_miss [OF inv None, of ok] None show ?thesis
    by (simp add: get_lock_calls_def)
next
  case (Some v)
  from cache_get_hit [OF inv Some, of ok] obtain c' where
    "cache_get ok (Some c) (Some k) = Some (strdup ok v, Some c')"
    "lock c' = lock c @ [RdLock, Unlock, WrLock, Unlock]"
    by blast
  with Some show ?thesis by (simp add: get_lock_calls_def)
qed

text \<open>\<open>cache_get\<close> is its two sections, one after the other.\<close>

lemma cache_get_sections:
  "cache_get ok (Some c) (Some k) =
     map_option (\<lambda>(r, c'). (r, Some c')) (get_among ok c k [])"
  by (auto simp: cache_get_def get_among_def get_shared_def get_exclusive_def Let_def
        split: option.splits Option.bind_splits)

lemma get_shared_inv:
  assumes inv: "cache_inv c xs"
  shows "get_shared c k =
           Some (map_of (entries c xs) k \<noteq> None, c\<lparr>lock := lock c @ [RdLock, Unlock]\<rparr>)"
proof -
  let ?cr = "rwlock_rdlock c"
  have invr: "cache_inv ?cr xs" using inv by simp
  have "find (has_key (heap c) k) xs \<noteq> None \<longleftrightarrow> map_of (entries c xs) k \<noteq> None"
    using find_has_key_None [OF inv, of k] by (simp add: map_of_entries_None)
  with cache_inv_scan [OF invr, of k] show ?thesis
    by (auto simp: get_shared_def Let_def rwlock_rdlock_def rwlock_unlock_def)
qed

lemma get_exclusive_miss:
  assumes inv: "cache_inv c xs" and k: "map_of (entries c xs) k = None"
  shows "get_exclusive ok c k = Some (None, c\<lparr>lock := lock c @ [WrLock, Unlock]\<rparr>)"
proof -
  let ?cw = "rwlock_wrlock c"
  have invw: "cache_inv ?cw xs" using inv by simp
  from k have "find (has_key (heap c) k) xs = None"
    using find_has_key_None [OF inv, of k] by (simp add: map_of_entries_None)
  with cache_inv_scan [OF invw, of k] show ?thesis
    by (auto simp: get_exclusive_def Let_def rwlock_wrlock_def rwlock_unlock_def)
qed

lemma get_exclusive_hit:
  assumes inv: "cache_inv c xs" and k: "map_of (entries c xs) k = Some v"
  shows "\<exists>c' a. get_exclusive ok c k = Some (strdup ok v, c') \<and>
           a \<in> set xs \<and> has_key (heap c) k a \<and> cache_inv c' (a # remove1 a xs) \<and>
           entries c' (a # remove1 a xs) = spec_touch k v (entries c xs) \<and>
           lock c' = lock c @ [WrLock, Unlock]"
proof -
  let ?cw = "rwlock_wrlock c"
  have invw: "cache_inv ?cw xs" using inv by simp
  from k have "find (has_key (heap c) k) xs \<noteq> None"
    using find_has_key_None [OF inv, of k] by (auto simp: map_of_entries_None [symmetric])
  then obtain a where f: "find (has_key (heap c) k) xs = Some a" by auto
  from find_has_key_Some [OF inv f] k obtain nd where
    a: "a \<in> set xs" and nd: "heap c a = Some nd" "key nd = k" "value_n nd = v"
    by auto
  from promote_inv [OF invw a] obtain c1 c2 where
    p: "dll_remove ?cw a = Some c1" "dll_push_head c1 a = Some c2"
       "cache_inv c2 (a # remove1 a xs)" "same_data ?cw c2"
    by blast
  from same_data_value [OF p(4), of a nd] nd obtain nd2 where
    nd2: "heap c2 a = Some nd2" "value_n nd2 = v" by auto
  from cache_inv_scan [OF invw, of k] f p(1,2) nd2
  have 1: "get_exclusive ok c k = Some (strdup ok v, rwlock_unlock c2)"
    by (auto simp: get_exclusive_def Let_def)
  have "entries c2 (a # remove1 a xs) = entries ?cw (a # remove1 a xs)"
    by (rule same_data_entries [OF p(4)])
  also have "\<dots> = spec_touch k v (entries c xs)"
    using promote_entries [OF inv a nd(1)] nd by simp
  finally have 2: "entries (rwlock_unlock c2) (a # remove1 a xs) = spec_touch k v (entries c xs)"
    by simp
  from p(4) have 3: "lock c2 = lock c @ [WrLock]" by (simp add: same_data_def)
  have hk: "has_key (heap c) k a" using nd by (simp add: has_key_def)
  from 1 2 3 p(3) a hk show ?thesis
    by (intro exI [of _ "rwlock_unlock c2"] exI [of _ a]) simp
qed




end
